theory Spec2Isabelle
  imports Main
begin

section \<open>Time, channels and the recency list\<close>

text \<open>
  A \<^verbatim>\<open>time.Time\<close> is the number of nanoseconds since Go's zero instant and a
  \<^verbatim>\<open>time.Duration\<close> a number of nanoseconds. \<^verbatim>\<open>t.IsZero()\<close> is \<open>t = 0\<close>,
  \<^verbatim>\<open>t.After(u)\<close> is \<open>u < t\<close>, \<^verbatim>\<open>t.Before(u)\<close> is \<open>t < u\<close> and \<^verbatim>\<open>t.Add(d)\<close> is
  \<open>t + d\<close> (a \<^verbatim>\<open>Time\<close> counts seconds in 64 bits, so adding a \<^verbatim>\<open>Duration\<close> to a clock
  reading does not wrap). Every operation that reads the clock takes the reading as its
  argument \<open>now\<close>.
\<close>

type_synonym time = int
type_synonym duration = int

definition IsZero :: "time \<Rightarrow> bool" where
  "IsZero t = (t = 0)"

definition After :: "time \<Rightarrow> time \<Rightarrow> bool" where
  "After t u = (u < t)"

definition Before :: "time \<Rightarrow> time \<Rightarrow> bool" where
  "Before t u = (t < u)"

definition Add :: "time \<Rightarrow> duration \<Rightarrow> time" where
  "Add t d = t + d"

text \<open>
  A channel of \<^verbatim>\<open>struct{}\<close> that is only ever closed: \<^verbatim>\<open>close\<close> of a closed channel
  panics, and so does \<^verbatim>\<open>close\<close> of a \<^verbatim>\<open>nil\<close> channel. \<open>Panic msg\<close> is \<^verbatim>\<open>panic(msg)\<close>.
\<close>

datatype chan = NilChan | Open | Closed

datatype panic = CloseOfNilChannel | CloseOfClosedChannel | Panic string

fun close_chan :: "chan \<Rightarrow> panic + chan" where
  "close_chan Open = Inr Closed"
| "close_chan Closed = Inl CloseOfClosedChannel"
| "close_chan NilChan = Inl CloseOfNilChannel"

text \<open>
  \<^verbatim>\<open>container/list\<close>: the list is the sequence of its elements from front to back. An
  element is named by the key of the entry it carries (every element is created for one
  key and is stored in the map under that key). \<^verbatim>\<open>MoveToFront\<close> and \<^verbatim>\<open>Remove\<close> leave the
  list alone when the element is not in it; \<^verbatim>\<open>Back\<close> of an empty list is \<^verbatim>\<open>nil\<close>.
\<close>

definition PushFront :: "'k \<Rightarrow> 'k list \<Rightarrow> 'k list" where
  "PushFront k xs = k # xs"

definition MoveToFront :: "'k \<Rightarrow> 'k list \<Rightarrow> 'k list" where
  "MoveToFront k xs = (if k \<in> set xs then k # remove1 k xs else xs)"

definition Remove :: "'k \<Rightarrow> 'k list \<Rightarrow> 'k list" where
  "Remove k xs = remove1 k xs"

definition Back :: "'k list \<Rightarrow> 'k option" where
  "Back xs = (if xs = [] then None else Some (last xs))"

definition ListLen :: "'k list \<Rightarrow> int" where
  "ListLen xs = int (length xs)"

section \<open>The entry store\<close>

record ('k, 'v) entry =
  key :: 'k
  val :: 'v
  expiresAt :: time

text \<open>
  Every implementation keeps a map from keys to list elements and the recency list
  (front = most recently used). \<open>entries\<close> is the map (\<^verbatim>\<open>entries\<close>, \<^verbatim>\<open>items\<close>, \<^verbatim>\<open>cache\<close>),
  giving the entry that the element of a key carries; \<open>order\<close> is the list (\<^verbatim>\<open>order\<close>,
  \<^verbatim>\<open>evictionList\<close>, \<^verbatim>\<open>evictList\<close>, \<^verbatim>\<open>list\<close>, \<^verbatim>\<open>ll\<close>, \<^verbatim>\<open>l\<close>).
\<close>

record ('k, 'e) store =
  entries :: "'k \<rightharpoonup> 'e"
  order :: "'k list"

record ('k, 'e) bounded = "('k, 'e) store" +
  capacity :: int

record ('k, 'e) stoppable = "('k, 'e) bounded" +
  stopCh :: chan

text \<open>Map and list hold the same keys, each once.\<close>

definition store_inv :: "('k, 'e, 'z) store_scheme \<Rightarrow> bool" where
  "store_inv c = (distinct (order c) \<and> set (order c) = dom (entries c))"

text \<open>A bounded store: the capacity is positive and the list is no longer than it.\<close>

definition bounded_inv :: "('k, 'e, 'z) bounded_scheme \<Rightarrow> bool" where
  "bounded_inv c = (store_inv c \<and> 0 < capacity c \<and> ListLen (order c) \<le> capacity c)"

text \<open>
  Removing an element: \<^verbatim>\<open>delete(map, ent.key)\<close> and \<^verbatim>\<open>list.Remove(elem)\<close>, in either
  order. Every implementation has this helper (\<^verbatim>\<open>removeElementLocked\<close>, \<^verbatim>\<open>removeElement\<close>).
\<close>

definition removeElement :: "('k, 'e, 'z) store_scheme \<Rightarrow> 'k \<Rightarrow> ('k, 'e, 'z) store_scheme" where
  "removeElement c elem = c\<lparr>entries := (entries c)(elem := None), order := Remove elem (order c)\<rparr>"

text \<open>
  The sweep loop shared by several implementations:
  \<^verbatim>\<open>for elem := list.Back(); elem != nil; { prev := elem.Prev(); if expired(elem) { remove(elem) }; elem = prev }\<close>.
  \<^verbatim>\<open>prev\<close> is read before the element is removed and removing an element leaves the
  others linked as they were, so the loop visits the elements that were in the list when
  it started, from the back to the front: the list argument of \<open>sweepLoop\<close> is what is
  left of that walk. Every element carries an entry, so the \<open>None\<close> case is not reached
  on a store whose map and list agree.
\<close>

fun sweepLoop :: "('e \<Rightarrow> bool) \<Rightarrow> 'k list \<Rightarrow> ('k, 'e, 'z) store_scheme \<Rightarrow> ('k, 'e, 'z) store_scheme" where
  "sweepLoop expired [] c = c"
| "sweepLoop expired (elem # prevs) c =
     sweepLoop expired prevs
       (case entries c elem of
          Some ent \<Rightarrow> if expired ent then removeElement c elem else c
        | None \<Rightarrow> c)"

definition sweepBack :: "('e \<Rightarrow> bool) \<Rightarrow> ('k, 'e, 'z) store_scheme \<Rightarrow> ('k, 'e, 'z) store_scheme" where
  "sweepBack expired c = sweepLoop expired (rev (order c)) c"

section \<open>The cache with an injectable clock (\<^verbatim>\<open>package lru\<close>, \<^verbatim>\<open>New\<close> returns an error)\<close>

datatype error = ErrInvalidCapacity | ErrNegativeTTL

definition defaultCleanupInterval :: duration where
  "defaultCleanupInterval = 1000000000"

record config =
  cfg_defaultTTL :: duration
  cfg_cleanupInterval :: duration

text \<open>
  \<^verbatim>\<open>WithClock\<close> replaces the clock whose readings are the \<open>now\<close> arguments below, so it
  leaves the modelled part of the configuration as it is.
\<close>

datatype Option_p3 = WithDefaultTTL duration | WithCleanupInterval duration | WithClock

fun apply_Option_p3 :: "Option_p3 \<Rightarrow> config \<Rightarrow> config" where
  "apply_Option_p3 (WithDefaultTTL ttl) cfg = cfg\<lparr>cfg_defaultTTL := ttl\<rparr>"
| "apply_Option_p3 (WithCleanupInterval interval) cfg = cfg\<lparr>cfg_cleanupInterval := interval\<rparr>"
| "apply_Option_p3 WithClock cfg = cfg"

record ('k, 'v) Cache_p3 = "('k, ('k, 'v) entry) stoppable" +
  defaultTTL :: duration
  cleanupInterval :: duration
  stopOnce :: bool

text \<open>Until \<^verbatim>\<open>stopOnce\<close> has run, the stop channel is open.\<close>

definition inv_p3 :: "('k, 'v) Cache_p3 \<Rightarrow> bool" where
  "inv_p3 c = (bounded_inv c \<and> (if stopOnce c then stopCh c = Closed else stopCh c = Open))"

definition New_p3 :: "int \<Rightarrow> Option_p3 list \<Rightarrow> error + ('k, 'v) Cache_p3" where
  "New_p3 cap opts =
     (if cap \<le> 0 then Inl ErrInvalidCapacity
      else
        let cfg = foldl (\<lambda>cfg opt. apply_Option_p3 opt cfg)
                    \<lparr>cfg_defaultTTL = 0, cfg_cleanupInterval = defaultCleanupInterval\<rparr> opts
        in if cfg_defaultTTL cfg < 0 then Inl ErrNegativeTTL
           else Inr \<lparr>entries = Map.empty, order = [], capacity = cap, stopCh = Open,
                  defaultTTL = cfg_defaultTTL cfg,
                  cleanupInterval = (if cfg_cleanupInterval cfg \<le> 0 then defaultCleanupInterval
                                     else cfg_cleanupInterval cfg),
                  stopOnce = False\<rparr>)"

definition isExpired_p3 :: "('k, 'v) entry \<Rightarrow> time \<Rightarrow> bool" where
  "isExpired_p3 ent now = (if IsZero (expiresAt ent) then False else \<not> After (expiresAt ent) now)"

fun removeElementLocked_p3 :: "('k, 'e, 'z) store_scheme \<Rightarrow> 'k option \<Rightarrow> ('k, 'e, 'z) store_scheme" where
  "removeElementLocked_p3 c None = c"
| "removeElementLocked_p3 c (Some elem) = removeElement c elem"

function enforceCapacityLocked_p3 :: "('k, 'e, 'z) bounded_scheme \<Rightarrow> ('k, 'e, 'z) bounded_scheme" where
  "enforceCapacityLocked_p3 c =
     (if ListLen (order c) > capacity c
      then (case Back (order c) of
              None \<Rightarrow> c
            | Some tail \<Rightarrow> enforceCapacityLocked_p3 (removeElementLocked_p3 c (Some tail)))
      else c)"
  by pat_completeness auto
termination
proof (relation "measure (\<lambda>c. length (order c))")
  show "wf (measure (\<lambda>c. length (order c)))"
    by simp
next
  fix c :: "('k, 'e, 'z) bounded_scheme" and tail
  assume "Back (order c) = Some tail"
  then have "tail \<in> set (order c)"
    by (auto simp: Back_def split: if_splits)
  then show "(removeElementLocked_p3 c (Some tail), c) \<in> measure (\<lambda>c. length (order c))"
    by (simp add: removeElement_def Remove_def length_remove1) (cases "order c"; simp)
qed

declare enforceCapacityLocked_p3.simps [simp del]

definition removeExpiredLocked_p3 :: "('k, 'v) Cache_p3 \<Rightarrow> time \<Rightarrow> ('k, 'v) Cache_p3" where
  "removeExpiredLocked_p3 c now = sweepBack (\<lambda>ent. isExpired_p3 ent now) c"

definition SetWithTTL_p3 ::
  "('k, 'v) Cache_p3 \<Rightarrow> 'k \<Rightarrow> 'v \<Rightarrow> duration \<Rightarrow> time \<Rightarrow> error + ('k, 'v) Cache_p3" where
  "SetWithTTL_p3 c k v ttl now =
     (if ttl < 0 then Inl ErrNegativeTTL
      else
        let ttlToUse = (if ttl = 0 then defaultTTL c else ttl);
            exp = (if ttlToUse > 0 then Add now ttlToUse else 0)
        in case entries c k of
             Some ent \<Rightarrow>
               Inr (c\<lparr>entries := (entries c)(k \<mapsto> ent\<lparr>val := v, expiresAt := exp\<rparr>),
                      order := MoveToFront k (order c)\<rparr>)
           | None \<Rightarrow>
               Inr (enforceCapacityLocked_p3
                      (c\<lparr>entries := (entries c)(k \<mapsto> \<lparr>key = k, val = v, expiresAt = exp\<rparr>),
                         order := PushFront k (order c)\<rparr>)))"

definition Set_p3 :: "('k, 'v) Cache_p3 \<Rightarrow> 'k \<Rightarrow> 'v \<Rightarrow> time \<Rightarrow> error + ('k, 'v) Cache_p3" where
  "Set_p3 c k v now = SetWithTTL_p3 c k v 0 now"

text \<open>
  \<^verbatim>\<open>Get\<close> returns \<^verbatim>\<open>(value, true)\<close> as \<open>Some value\<close> and \<^verbatim>\<open>(zero, false)\<close> as \<open>None\<close>.
\<close>

definition Get_p3 :: "('k, 'v) Cache_p3 \<Rightarrow> 'k \<Rightarrow> time \<Rightarrow> ('k, 'v) Cache_p3 \<times> 'v option" where
  "Get_p3 c k now =
     (case entries c k of
        None \<Rightarrow> (c, None)
      | Some ent \<Rightarrow>
          if isExpired_p3 ent now then (removeElementLocked_p3 c (Some k), None)
          else (c\<lparr>order := MoveToFront k (order c)\<rparr>, Some (val ent)))"

definition Delete_p3 :: "('k, 'v) Cache_p3 \<Rightarrow> 'k \<Rightarrow> ('k, 'v) Cache_p3 \<times> bool" where
  "Delete_p3 c k =
     (case entries c k of
        None \<Rightarrow> (c, False)
      | Some ent \<Rightarrow> (removeElementLocked_p3 c (Some k), True))"

definition Len_p3 :: "('k, 'v) Cache_p3 \<Rightarrow> time \<Rightarrow> ('k, 'v) Cache_p3 \<times> int" where
  "Len_p3 c now = (let c' = removeExpiredLocked_p3 c now in (c', ListLen (order c')))"

text \<open>\<^verbatim>\<open>stopOnce.Do\<close> runs its function on the first call only.\<close>

definition Close_p3 :: "('k, 'v) Cache_p3 \<Rightarrow> panic + ('k, 'v) Cache_p3" where
  "Close_p3 c =
     (if stopOnce c then Inr c
      else case close_chan (stopCh c) of
             Inl p \<Rightarrow> Inl p
           | Inr ch \<Rightarrow> Inr (c\<lparr>stopCh := ch, stopOnce := True\<rparr>))"

section \<open>\<^verbatim>\<open>package agent14\<close>: \<^verbatim>\<open>New(Config)\<close>, \<^verbatim>\<open>Set(key, value, ttl)\<close>, \<^verbatim>\<open>Get\<close> returns an error\<close>

record Config_a14 =
  Capacity :: int
  CleanupInterval :: duration

definition New_a14 :: "Config_a14 \<Rightarrow> ('k, ('k, 'v) entry) stoppable" where
  "New_a14 cfg =
     (let cap = (if Capacity cfg \<le> 0 then 128 else Capacity cfg)
      in \<lparr>entries = Map.empty, order = [], capacity = cap, stopCh = Open\<rparr>)"

definition removeElementLocked_a14 :: "('k, 'e, 'z) store_scheme \<Rightarrow> 'k \<Rightarrow> ('k, 'e, 'z) store_scheme" where
  "removeElementLocked_a14 c elem = removeElement c elem"

definition removeOldestLocked_a14 :: "('k, 'e, 'z) store_scheme \<Rightarrow> ('k, 'e, 'z) store_scheme" where
  "removeOldestLocked_a14 c =
     (case Back (order c) of Some elem \<Rightarrow> removeElementLocked_a14 c elem | None \<Rightarrow> c)"

text \<open>\<^verbatim>\<open>len(c.items)\<close> is the number of keys of the map.\<close>

definition Set_a14 ::
  "('k, ('k, 'v) entry) stoppable \<Rightarrow> 'k \<Rightarrow> 'v \<Rightarrow> duration \<Rightarrow> time \<Rightarrow> ('k, ('k, 'v) entry) stoppable" where
  "Set_a14 c k v ttl now =
     (let exp = (if ttl > 0 then Add now ttl else 0)
      in case entries c k of
           Some ent \<Rightarrow>
             c\<lparr>entries := (entries c)(k \<mapsto> ent\<lparr>val := v, expiresAt := exp\<rparr>),
               order := MoveToFront k (order c)\<rparr>
         | None \<Rightarrow>
             let c' = c\<lparr>entries := (entries c)(k \<mapsto> \<lparr>key = k, val = v, expiresAt = exp\<rparr>),
                        order := PushFront k (order c)\<rparr>
             in if int (card (dom (entries c'))) > capacity c' then removeOldestLocked_a14 c' else c')"

text \<open>\<^verbatim>\<open>Get\<close> returns \<^verbatim>\<open>(value, nil)\<close> as \<open>Some value\<close> and \<^verbatim>\<open>(nil, ErrNotFound)\<close> as \<open>None\<close>.\<close>

definition Get_a14 ::
  "('k, ('k, 'v) entry) stoppable \<Rightarrow> 'k \<Rightarrow> time \<Rightarrow> ('k, ('k, 'v) entry) stoppable \<times> 'v option" where
  "Get_a14 c k now =
     (case entries c k of
        None \<Rightarrow> (c, None)
      | Some ent \<Rightarrow>
          if IsZero (expiresAt ent) \<or> Before now (expiresAt ent)
          then (c\<lparr>order := MoveToFront k (order c)\<rparr>, Some (val ent))
          else (removeElementLocked_a14 c k, None))"

definition Delete_a14 ::
  "('k, ('k, 'v) entry) stoppable \<Rightarrow> 'k \<Rightarrow> ('k, ('k, 'v) entry) stoppable \<times> bool" where
  "Delete_a14 c k =
     (case entries c k of
        None \<Rightarrow> (c, False)
      | Some ent \<Rightarrow> (removeElementLocked_a14 c k, True))"

definition Len_a14 :: "('k, ('k, 'v) entry) stoppable \<Rightarrow> int" where
  "Len_a14 c = int (card (dom (entries c)))"

definition Close_a14 :: "('k, ('k, 'v) entry) stoppable \<Rightarrow> panic + ('k, ('k, 'v) entry) stoppable" where
  "Close_a14 c =
     (case close_chan (stopCh c) of
        Inl p \<Rightarrow> Inl p
      | Inr ch \<Rightarrow> Inr (c\<lparr>stopCh := ch\<rparr>))"

definition removeExpired_a14 ::
  "('k, ('k, 'v) entry) stoppable \<Rightarrow> time \<Rightarrow> ('k, ('k, 'v) entry) stoppable" where
  "removeExpired_a14 c now =
     sweepBack (\<lambda>ent. \<not> IsZero (expiresAt ent) \<and> After now (expiresAt ent)) c"

section \<open>\<^verbatim>\<open>package agent13\<close>: \<^verbatim>\<open>New(capacity, cleanupInterval)\<close>\<close>

text \<open>The entry's field \<^verbatim>\<open>expiration\<close> is \<open>expiresAt\<close>.\<close>

definition New_a13 :: "int \<Rightarrow> duration \<Rightarrow> ('k, ('k, 'v) entry) stoppable" where
  "New_a13 cap cleanupInterval' =
     \<lparr>entries = Map.empty, order = [], capacity = (if cap \<le> 0 then 100 else cap), stopCh = Open\<rparr>"

definition removeElement_a13 :: "('k, 'e, 'z) store_scheme \<Rightarrow> 'k \<Rightarrow> ('k, 'e, 'z) store_scheme" where
  "removeElement_a13 c elem = removeElement c elem"

definition removeOldest_a13 :: "('k, 'e, 'z) store_scheme \<Rightarrow> ('k, 'e, 'z) store_scheme" where
  "removeOldest_a13 c =
     (case Back (order c) of Some elem \<Rightarrow> removeElement_a13 c elem | None \<Rightarrow> c)"

definition Set_a13 ::
  "('k, ('k, 'v) entry) stoppable \<Rightarrow> 'k \<Rightarrow> 'v \<Rightarrow> duration \<Rightarrow> time \<Rightarrow> ('k, ('k, 'v) entry) stoppable" where
  "Set_a13 c k v ttl now =
     (let exp = (if ttl > 0 then Add now ttl else 0)
      in case entries c k of
           Some ent \<Rightarrow>
             c\<lparr>order := MoveToFront k (order c),
               entries := (entries c)(k \<mapsto> ent\<lparr>val := v, expiresAt := exp\<rparr>)\<rparr>
         | None \<Rightarrow>
             let c' = c\<lparr>entries := (entries c)(k \<mapsto> \<lparr>key = k, val = v, expiresAt = exp\<rparr>),
                        order := PushFront k (order c)\<rparr>
             in if ListLen (order c') > capacity c' then removeOldest_a13 c' else c')"

definition Get_a13 ::
  "('k, ('k, 'v) entry) stoppable \<Rightarrow> 'k \<Rightarrow> time \<Rightarrow> ('k, ('k, 'v) entry) stoppable \<times> 'v option" where
  "Get_a13 c k now =
     (case entries c k of
        None \<Rightarrow> (c, None)
      | Some ent \<Rightarrow>
          if \<not> IsZero (expiresAt ent) \<and> After now (expiresAt ent)
          then (removeElement_a13 c k, None)
          else (c\<lparr>order := MoveToFront k (order c)\<rparr>, Some (val ent)))"

section \<open>\<^verbatim>\<open>package lru\<close> of agent11: the generic cache with \<^verbatim>\<open>Peek\<close> and \<^verbatim>\<open>Cleanup\<close>\<close>

text \<open>
  Its \<^verbatim>\<open>Cache\<close> has the fields of \<open>Cache_p3\<close> (\<^verbatim>\<open>items\<close> is \<open>entries\<close>, \<^verbatim>\<open>evictionList\<close>
  is \<open>order\<close>, the entry's \<^verbatim>\<open>expires\<close> is \<open>expiresAt\<close>). It reads \<^verbatim>\<open>time.Now()\<close>; a call
  that reads it more than once gets the one reading \<open>now\<close>.
\<close>

type_synonym ('k, 'v) Cache_a11 = "('k, 'v) Cache_p3"

datatype Option_a11 = WithTTL duration | WithCleanupInterval_a11 duration

fun apply_Option_a11 :: "Option_a11 \<Rightarrow> config \<Rightarrow> config" where
  "apply_Option_a11 (WithTTL ttl) o' = o'\<lparr>cfg_defaultTTL := (if ttl < 0 then 0 else ttl)\<rparr>"
| "apply_Option_a11 (WithCleanupInterval_a11 interval) o' =
     o'\<lparr>cfg_cleanupInterval := (if interval \<le> 0 then 0 else interval)\<rparr>"

definition New_a11 :: "int \<Rightarrow> Option_a11 list \<Rightarrow> panic + ('k, 'v) Cache_a11" where
  "New_a11 cap opts =
     (if cap \<le> 0 then Inl (Panic ''lru: capacity must be greater than zero'')
      else
        let o' = foldl (\<lambda>o' opt. apply_Option_a11 opt o')
                   \<lparr>cfg_defaultTTL = 0, cfg_cleanupInterval = 0\<rparr> opts
        in Inr \<lparr>entries = Map.empty, order = [], capacity = cap,
                stopCh = (if cfg_cleanupInterval o' > 0 then Open else NilChan),
                defaultTTL = cfg_defaultTTL o', cleanupInterval = cfg_cleanupInterval o',
                stopOnce = False\<rparr>)"

definition expiryTime_a11 :: "duration \<Rightarrow> time \<Rightarrow> time" where
  "expiryTime_a11 ttl now = (if ttl \<le> 0 then 0 else Add now ttl)"

definition isExpired_a11 :: "('k, 'v) entry \<Rightarrow> time \<Rightarrow> bool" where
  "isExpired_a11 ent now = (if IsZero (expiresAt ent) then False else After now (expiresAt ent))"

definition removeElementLocked_a11 :: "('k, 'e, 'z) store_scheme \<Rightarrow> 'k \<Rightarrow> ('k, 'e, 'z) store_scheme" where
  "removeElementLocked_a11 c element = removeElement c element"

definition removeOldestLocked_a11 :: "('k, 'e, 'z) store_scheme \<Rightarrow> ('k, 'e, 'z) store_scheme" where
  "removeOldestLocked_a11 c =
     (case Back (order c) of None \<Rightarrow> c | Some element \<Rightarrow> removeElementLocked_a11 c element)"

text \<open>
  \<^verbatim>\<open>purgeExpiredLocked\<close> also counts what it removes; \<^verbatim>\<open>SetWithTTL\<close> and \<^verbatim>\<open>Len\<close> drop the
  count, and the model keeps the state only.
\<close>

definition purgeExpiredLocked_a11 :: "('k, 'v) Cache_a11 \<Rightarrow> time \<Rightarrow> ('k, 'v) Cache_a11" where
  "purgeExpiredLocked_a11 c now = sweepBack (\<lambda>ent. isExpired_a11 ent now) c"

text \<open>
  \<^verbatim>\<open>for c.evictionList.Len() >= c.capacity { c.removeOldestLocked() }\<close> does not end when
  the capacity is not positive (the list stays empty): \<open>None\<close> is the loop that runs forever.
\<close>

partial_function (option) evictLoop_a11 :: "('k, 'v) Cache_a11 \<Rightarrow> ('k, 'v) Cache_a11 option" where
  "evictLoop_a11 c =
     (if ListLen (order c) \<ge> capacity c then evictLoop_a11 (removeOldestLocked_a11 c) else Some c)"

definition SetWithTTL_a11 ::
  "('k, 'v) Cache_a11 \<Rightarrow> 'k \<Rightarrow> 'v \<Rightarrow> duration \<Rightarrow> time \<Rightarrow> ('k, 'v) Cache_a11 option" where
  "SetWithTTL_a11 c k v ttl now =
     (let c1 = purgeExpiredLocked_a11 c now
      in case entries c1 k of
           Some ent \<Rightarrow>
             Some (c1\<lparr>entries := (entries c1)(k \<mapsto> ent\<lparr>val := v, expiresAt := expiryTime_a11 ttl now\<rparr>),
                      order := MoveToFront k (order c1)\<rparr>)
         | None \<Rightarrow>
             (case evictLoop_a11 c1 of
                None \<Rightarrow> None
              | Some c2 \<Rightarrow>
                  Some (c2\<lparr>entries := (entries c2)(k \<mapsto> \<lparr>key = k, val = v, expiresAt = expiryTime_a11 ttl now\<rparr>),
                           order := PushFront k (order c2)\<rparr>)))"

definition Set_a11 :: "('k, 'v) Cache_a11 \<Rightarrow> 'k \<Rightarrow> 'v \<Rightarrow> time \<Rightarrow> ('k, 'v) Cache_a11 option" where
  "Set_a11 c k v now = SetWithTTL_a11 c k v (defaultTTL c) now"

definition Get_a11 :: "('k, 'v) Cache_a11 \<Rightarrow> 'k \<Rightarrow> time \<Rightarrow> ('k, 'v) Cache_a11 \<times> 'v option" where
  "Get_a11 c k now =
     (case entries c k of
        None \<Rightarrow> (c, None)
      | Some ent \<Rightarrow>
          if isExpired_a11 ent now then (removeElementLocked_a11 c k, None)
          else (c\<lparr>order := MoveToFront k (order c)\<rparr>, Some (val ent)))"

definition Peek_a11 :: "('k, 'v) Cache_a11 \<Rightarrow> 'k \<Rightarrow> time \<Rightarrow> ('k, 'v) Cache_a11 \<times> 'v option" where
  "Peek_a11 c k now =
     (case entries c k of
        None \<Rightarrow> (c, None)
      | Some ent \<Rightarrow>
          if isExpired_a11 ent now then (removeElementLocked_a11 c k, None)
          else (c, Some (val ent)))"

definition Delete_a11 :: "('k, 'v) Cache_a11 \<Rightarrow> 'k \<Rightarrow> ('k, 'v) Cache_a11 \<times> bool" where
  "Delete_a11 c k =
     (case entries c k of
        None \<Rightarrow> (c, False)
      | Some ent \<Rightarrow> (removeElementLocked_a11 c k, True))"

definition Len_a11 :: "('k, 'v) Cache_a11 \<Rightarrow> time \<Rightarrow> ('k, 'v) Cache_a11 \<times> int" where
  "Len_a11 c now = (let c' = purgeExpiredLocked_a11 c now in (c', ListLen (order c')))"

definition Cleanup_a11 :: "('k, 'v) Cache_a11 \<Rightarrow> time \<Rightarrow> ('k, 'v) Cache_a11" where
  "Cleanup_a11 c now = purgeExpiredLocked_a11 c now"

section \<open>\<^verbatim>\<open>package lru\<close> of agent11: \<^verbatim>\<open>LRU\<close> with \<^verbatim>\<open>Put\<close> and the minute sweep\<close>

text \<open>
  \<^verbatim>\<open>items\<close> is \<open>entries\<close>, \<^verbatim>\<open>l\<close> is \<open>order\<close>, the entry's \<^verbatim>\<open>expire\<close> is \<open>expiresAt\<close>.
  \<^verbatim>\<open>New\<close> takes any capacity.
\<close>

definition New_a11l :: "int \<Rightarrow> ('k, ('k, 'v) entry) bounded" where
  "New_a11l cap = \<lparr>entries = Map.empty, order = [], capacity = cap\<rparr>"

text \<open>
  The body of one tick of \<^verbatim>\<open>cleanup\<close>: from the back of the list, remove the element while
  its entry is expired; \<^verbatim>\<open>break\<close> at the first entry that is not.
\<close>

fun cleanupLoop_a11l ::
  "'k list \<Rightarrow> time \<Rightarrow> ('k, ('k, 'v) entry) bounded \<Rightarrow> ('k, ('k, 'v) entry) bounded" where
  "cleanupLoop_a11l [] now c = c"
| "cleanupLoop_a11l (e # prevs) now c =
     (case entries c e of
        Some ent \<Rightarrow>
          if After now (expiresAt ent)
          then cleanupLoop_a11l prevs now
                 (c\<lparr>entries := (entries c)(e := None), order := Remove e (order c)\<rparr>)
          else c
      | None \<Rightarrow> c)"

definition cleanup_a11l :: "('k, ('k, 'v) entry) bounded \<Rightarrow> time \<Rightarrow> ('k, ('k, 'v) entry) bounded" where
  "cleanup_a11l c now = cleanupLoop_a11l (rev (order c)) now c"

definition Get_a11l ::
  "('k, ('k, 'v) entry) bounded \<Rightarrow> 'k \<Rightarrow> time \<Rightarrow> ('k, ('k, 'v) entry) bounded \<times> 'v option" where
  "Get_a11l c k now =
     (case entries c k of
        None \<Rightarrow> (c, None)
      | Some ent \<Rightarrow>
          if After now (expiresAt ent)
          then (c\<lparr>entries := (entries c)(k := None), order := Remove k (order c)\<rparr>, None)
          else (c\<lparr>order := MoveToFront k (order c)\<rparr>, Some (val ent)))"

definition Put_a11l ::
  "('k, ('k, 'v) entry) bounded \<Rightarrow> 'k \<Rightarrow> 'v \<Rightarrow> duration \<Rightarrow> time \<Rightarrow> ('k, ('k, 'v) entry) bounded" where
  "Put_a11l c k v ttl now =
     (let expire = Add now ttl
      in case entries c k of
           Some ent \<Rightarrow>
             c\<lparr>order := MoveToFront k (order c),
               entries := (entries c)(k \<mapsto> ent\<lparr>val := v, expiresAt := expire\<rparr>)\<rparr>
         | None \<Rightarrow>
             let c' = c\<lparr>entries := (entries c)(k \<mapsto> \<lparr>key = k, val = v, expiresAt = expire\<rparr>),
                        order := PushFront k (order c)\<rparr>
             in if ListLen (order c') > capacity c'
                then (case Back (order c') of
                        Some elem \<Rightarrow> removeElement c' elem
                      | None \<Rightarrow> c')
                else c')"

section \<open>\<^verbatim>\<open>package lrucache\<close> of agent3: \<^verbatim>\<open>Add\<close>, \<^verbatim>\<open>Get\<close>, \<^verbatim>\<open>Remove\<close>\<close>

text \<open>
  \<^verbatim>\<open>maxEntries\<close> is \<open>capacity\<close> (zero means no bound), \<^verbatim>\<open>cache\<close> is \<open>entries\<close>, \<^verbatim>\<open>ll\<close> is
  \<open>order\<close>. \<^verbatim>\<open>New\<close> always makes the map, so the \<^verbatim>\<open>c.cache == nil\<close> branches are not
  taken.
\<close>

definition New_a3 :: "int \<Rightarrow> ('k, ('k, 'v) entry) bounded" where
  "New_a3 maxEntries = \<lparr>entries = Map.empty, order = [], capacity = maxEntries\<rparr>"

definition removeElement_a3 :: "('k, 'e, 'z) store_scheme \<Rightarrow> 'k \<Rightarrow> ('k, 'e, 'z) store_scheme" where
  "removeElement_a3 c e = removeElement c e"

definition removeOldest_a3 :: "('k, 'e, 'z) store_scheme \<Rightarrow> ('k, 'e, 'z) store_scheme" where
  "removeOldest_a3 c = (case Back (order c) of Some ele \<Rightarrow> removeElement_a3 c ele | None \<Rightarrow> c)"

definition Add_a3 ::
  "('k, ('k, 'v) entry) bounded \<Rightarrow> 'k \<Rightarrow> 'v \<Rightarrow> duration \<Rightarrow> time \<Rightarrow> ('k, ('k, 'v) entry) bounded" where
  "Add_a3 c k v ttl now =
     (case entries c k of
        Some ee \<Rightarrow>
          c\<lparr>order := MoveToFront k (order c),
            entries := (entries c)(k \<mapsto> ee\<lparr>val := v, expiresAt := Add now ttl\<rparr>)\<rparr>
      | None \<Rightarrow>
          let c' = c\<lparr>entries := (entries c)(k \<mapsto> \<lparr>key = k, val = v, expiresAt = Add now ttl\<rparr>),
                     order := PushFront k (order c)\<rparr>
          in if capacity c' \<noteq> 0 \<and> ListLen (order c') > capacity c' then removeOldest_a3 c' else c')"

definition Get_a3 ::
  "('k, ('k, 'v) entry) bounded \<Rightarrow> 'k \<Rightarrow> time \<Rightarrow> ('k, ('k, 'v) entry) bounded \<times> 'v option" where
  "Get_a3 c k now =
     (case entries c k of
        Some ele \<Rightarrow>
          if After now (expiresAt ele) then (removeElement_a3 c k, None)
          else (c\<lparr>order := MoveToFront k (order c)\<rparr>, Some (val ele))
      | None \<Rightarrow> (c, None))"

definition Remove_a3 :: "('k, ('k, 'v) entry) bounded \<Rightarrow> 'k \<Rightarrow> ('k, ('k, 'v) entry) bounded" where
  "Remove_a3 c k = (case entries c k of Some ele \<Rightarrow> removeElement_a3 c k | None \<Rightarrow> c)"

definition Len_a3 :: "('k, ('k, 'v) entry) bounded \<Rightarrow> int" where
  "Len_a3 c = ListLen (order c)"

section \<open>\<^verbatim>\<open>package lrucache\<close> of agent1: \<^verbatim>\<open>LRUCache\<close>\<close>

text \<open>
  The map holds the entries themselves, each with its list element; \<^verbatim>\<open>items\<close> is
  \<open>entries\<close> and \<^verbatim>\<open>evictList\<close> is \<open>order\<close>.
\<close>

definition New_a1 :: "int \<Rightarrow> ('k, ('k, 'v) entry) stoppable" where
  "New_a1 cap =
     \<lparr>entries = Map.empty, order = [], capacity = (if cap \<le> 0 then 1 else cap), stopCh = Open\<rparr>"

definition removeEntry_a1 :: "('k, 'e, 'z) store_scheme \<Rightarrow> 'k \<Rightarrow> ('k, 'e, 'z) store_scheme" where
  "removeEntry_a1 c ent = removeElement c ent"

fun removeElement_a1 :: "('k, 'e, 'z) store_scheme \<Rightarrow> 'k option \<Rightarrow> ('k, 'e, 'z) store_scheme" where
  "removeElement_a1 c None = c"
| "removeElement_a1 c (Some element) = removeElement c element"

definition evictLRU_a1 :: "('k, 'e, 'z) store_scheme \<Rightarrow> ('k, 'e, 'z) store_scheme" where
  "evictLRU_a1 c =
     (case Back (order c) of Some element \<Rightarrow> removeElement_a1 c (Some element) | None \<Rightarrow> c)"

definition Set_a1 ::
  "('k, ('k, 'v) entry) stoppable \<Rightarrow> 'k \<Rightarrow> 'v \<Rightarrow> duration \<Rightarrow> time \<Rightarrow> ('k, ('k, 'v) entry) stoppable" where
  "Set_a1 c k v ttl now =
     (let exp = Add now ttl
      in case entries c k of
           Some ent \<Rightarrow>
             c\<lparr>entries := (entries c)(k \<mapsto> ent\<lparr>val := v, expiresAt := exp\<rparr>),
               order := MoveToFront k (order c)\<rparr>
         | None \<Rightarrow>
             let c' = c\<lparr>entries := (entries c)(k \<mapsto> \<lparr>key = k, val = v, expiresAt = exp\<rparr>),
                        order := PushFront k (order c)\<rparr>
             in if int (card (dom (entries c'))) > capacity c' then evictLRU_a1 c' else c')"

definition Get_a1 ::
  "('k, ('k, 'v) entry) stoppable \<Rightarrow> 'k \<Rightarrow> time \<Rightarrow> ('k, ('k, 'v) entry) stoppable \<times> 'v option" where
  "Get_a1 c k now =
     (case entries c k of
        None \<Rightarrow> (c, None)
      | Some ent \<Rightarrow>
          if After now (expiresAt ent) then (removeEntry_a1 c k, None)
          else (c\<lparr>order := MoveToFront k (order c)\<rparr>, Some (val ent)))"

section \<open>\<^verbatim>\<open>package lru\<close> of agent12: \<^verbatim>\<open>Close\<close> under \<^verbatim>\<open>closeOnce\<close>\<close>

text \<open>\<^verbatim>\<open>maxSize\<close> is \<open>capacity\<close>, \<^verbatim>\<open>items\<close> is \<open>entries\<close>, \<^verbatim>\<open>list\<close> is \<open>order\<close>.\<close>

record ('k, 'v) Cache_a12 = "('k, ('k, 'v) entry) stoppable" +
  closeOnce :: bool

text \<open>
  \<^verbatim>\<open>closeOnce.Do\<close> runs \<^verbatim>\<open>close(c.stopCh); c.wg.Wait()\<close> on the first call only. The wait
  for the sweeper to return is not part of the state.
\<close>

definition Close_a12 :: "('k, 'v) Cache_a12 \<Rightarrow> panic + ('k, 'v) Cache_a12" where
  "Close_a12 c =
     (if closeOnce c then Inr c
      else case close_chan (stopCh c) of
             Inl p \<Rightarrow> Inl p
           | Inr ch \<Rightarrow> Inr (c\<lparr>stopCh := ch, closeOnce := True\<rparr>))"

section \<open>\<^verbatim>\<open>package lru\<close> with the janitor: \<^verbatim>\<open>Set(key, value, ttl)\<close>, \<^verbatim>\<open>Peek\<close>\<close>

text \<open>
  The entry also keeps the \<^verbatim>\<open>ttl\<close> it was set with. \<^verbatim>\<open>cap\<close> is \<open>capacity\<close>, \<^verbatim>\<open>items\<close> is
  \<open>entries\<close>, \<^verbatim>\<open>list\<close> is \<open>order\<close>, \<^verbatim>\<open>janitor.stop\<close> is \<open>stopCh\<close>.
\<close>

record ('k, 'v) entry_p6 = "('k, 'v) entry" +
  ttl :: duration

type_synonym ('k, 'v) Cache_p6 = "('k, ('k, 'v) entry_p6) stoppable"

definition removeElementLocked_p6 :: "('k, 'e, 'z) store_scheme \<Rightarrow> 'k \<Rightarrow> ('k, 'e, 'z) store_scheme" where
  "removeElementLocked_p6 c el = removeElement c el"

definition removeOldestLocked_p6 :: "('k, 'e, 'z) store_scheme \<Rightarrow> ('k, 'e, 'z) store_scheme" where
  "removeOldestLocked_p6 c =
     (case Back (order c) of None \<Rightarrow> c | Some el \<Rightarrow> removeElementLocked_p6 c el)"

definition Set_p6 :: "('k, 'v) Cache_p6 \<Rightarrow> 'k \<Rightarrow> 'v \<Rightarrow> duration \<Rightarrow> time \<Rightarrow> ('k, 'v) Cache_p6" where
  "Set_p6 c k v ttl' now =
     (let exp = (if ttl' > 0 then Add now ttl' else 0)
      in case entries c k of
           Some ent \<Rightarrow>
             c\<lparr>entries := (entries c)(k \<mapsto> ent\<lparr>val := v, ttl := ttl', expiresAt := exp\<rparr>),
               order := MoveToFront k (order c)\<rparr>
         | None \<Rightarrow>
             let c' = (if ListLen (order c) \<ge> capacity c then removeOldestLocked_p6 c else c)
             in c'\<lparr>entries := (entries c')(k \<mapsto> \<lparr>key = k, val = v, expiresAt = exp, ttl = ttl'\<rparr>),
                   order := PushFront k (order c')\<rparr>)"

definition Get_p6 :: "('k, 'v) Cache_p6 \<Rightarrow> 'k \<Rightarrow> time \<Rightarrow> ('k, 'v) Cache_p6 \<times> 'v option" where
  "Get_p6 c k now =
     (case entries c k of
        None \<Rightarrow> (c, None)
      | Some ent \<Rightarrow>
          if ttl ent > 0 \<and> After now (expiresAt ent) then (removeElementLocked_p6 c k, None)
          else (c\<lparr>order := MoveToFront k (order c)\<rparr>, Some (val ent)))"

definition Peek_p6 :: "('k, 'v) Cache_p6 \<Rightarrow> 'k \<Rightarrow> time \<Rightarrow> ('k, 'v) Cache_p6 \<times> 'v option" where
  "Peek_p6 c k now =
     (case entries c k of
        None \<Rightarrow> (c, None)
      | Some ent \<Rightarrow>
          if ttl ent > 0 \<and> After now (expiresAt ent) then (removeElementLocked_p6 c k, None)
          else (c, Some (val ent)))"

definition Delete_p6 :: "('k, 'v) Cache_p6 \<Rightarrow> 'k \<Rightarrow> ('k, 'v) Cache_p6 \<times> bool" where
  "Delete_p6 c k =
     (case entries c k of
        None \<Rightarrow> (c, False)
      | Some ent \<Rightarrow> (removeElementLocked_p6 c k, True))"

definition Len_p6 :: "('k, 'v) Cache_p6 \<Rightarrow> int" where
  "Len_p6 c = ListLen (order c)"

section \<open>Sequences of operations\<close>

text \<open>
  The calls a client (and the sweeper, \<open>OpSweep\<close>: one tick of \<^verbatim>\<open>runCleanup\<close>, that is
  \<^verbatim>\<open>removeExpiredEntries\<close>) makes on the cache with the injectable clock, each with the
  clock reading it gets. A \<^verbatim>\<open>Set\<close> that returns an error leaves the cache as it was.
\<close>

datatype ('k, 'v) op_p3 =
    OpSet 'k 'v time
  | OpSetWithTTL 'k 'v duration time
  | OpGet 'k time
  | OpDelete 'k
  | OpLen time
  | OpSweep time
  | OpClose

fun step_p3 :: "('k, 'v) Cache_p3 \<Rightarrow> ('k, 'v) op_p3 \<Rightarrow> panic + ('k, 'v) Cache_p3" where
  "step_p3 c (OpSet k v now) = (case Set_p3 c k v now of Inl e \<Rightarrow> Inr c | Inr c' \<Rightarrow> Inr c')"
| "step_p3 c (OpSetWithTTL k v ttl' now) =
     (case SetWithTTL_p3 c k v ttl' now of Inl e \<Rightarrow> Inr c | Inr c' \<Rightarrow> Inr c')"
| "step_p3 c (OpGet k now) = Inr (fst (Get_p3 c k now))"
| "step_p3 c (OpDelete k) = Inr (fst (Delete_p3 c k))"
| "step_p3 c (OpLen now) = Inr (fst (Len_p3 c now))"
| "step_p3 c (OpSweep now) = Inr (removeExpiredLocked_p3 c now)"
| "step_p3 c OpClose = Close_p3 c"

fun run_p3 :: "('k, 'v) Cache_p3 \<Rightarrow> ('k, 'v) op_p3 list \<Rightarrow> panic + ('k, 'v) Cache_p3" where
  "run_p3 c [] = Inr c"
| "run_p3 c (op # ops) = (case step_p3 c op of Inl p \<Rightarrow> Inl p | Inr c' \<Rightarrow> run_p3 c' ops)"

text \<open>
  Specification of "touched by \<^verbatim>\<open>Set\<close> or \<^verbatim>\<open>Get\<close>": a \<^verbatim>\<open>Set\<close> that stores the key and a
  \<^verbatim>\<open>Get\<close> that finds it touch the key; nothing else touches a key.
\<close>

fun touches_p3 :: "('k, 'v) Cache_p3 \<Rightarrow> ('k, 'v) op_p3 \<Rightarrow> 'k option" where
  "touches_p3 c (OpSet k v now) = (case Set_p3 c k v now of Inl e \<Rightarrow> None | Inr c' \<Rightarrow> Some k)"
| "touches_p3 c (OpSetWithTTL k v ttl' now) =
     (case SetWithTTL_p3 c k v ttl' now of Inl e \<Rightarrow> None | Inr c' \<Rightarrow> Some k)"
| "touches_p3 c (OpGet k now) = (case snd (Get_p3 c k now) of None \<Rightarrow> None | Some v \<Rightarrow> Some k)"
| "touches_p3 c (OpDelete k) = None"
| "touches_p3 c (OpLen now) = None"
| "touches_p3 c (OpSweep now) = None"
| "touches_p3 c OpClose = None"

text \<open>
  Specification of "least recently touched": \<open>lastTouch_p3 c0 ops k\<close> is the position
  (from 1) in \<open>ops\<close>, run from \<open>c0\<close>, of the last operation that touched \<open>k\<close>, and 0 when
  none did. The first list of \<open>lastTouchRev_p3\<close> is \<open>ops\<close> reversed.
\<close>

fun lastTouchRev_p3 :: "('k, 'v) Cache_p3 \<Rightarrow> ('k, 'v) op_p3 list \<Rightarrow> 'k \<Rightarrow> nat" where
  "lastTouchRev_p3 c0 [] k = 0"
| "lastTouchRev_p3 c0 (op # earlier) k =
     (case run_p3 c0 (rev earlier) of
        Inr c \<Rightarrow> if touches_p3 c op = Some k then Suc (length earlier) else lastTouchRev_p3 c0 earlier k
      | Inl p \<Rightarrow> lastTouchRev_p3 c0 earlier k)"

definition lastTouch_p3 :: "('k, 'v) Cache_p3 \<Rightarrow> ('k, 'v) op_p3 list \<Rightarrow> 'k \<Rightarrow> nat" where
  "lastTouch_p3 c0 ops k = lastTouchRev_p3 c0 (rev ops) k"

text \<open>
  A recency list \<open>xs\<close> agrees with the last touches \<open>lt\<close> after \<open>n\<close> operations: it is
  ordered by the last touch, the most recent first, and no key in it was touched later
  than the \<open>n\<close>-th operation.
\<close>

definition recent :: "('k \<Rightarrow> nat) \<Rightarrow> nat \<Rightarrow> 'k list \<Rightarrow> bool" where
  "recent lt n xs = (sorted_wrt (\<lambda>a b. lt b < lt a) xs \<and> (\<forall>x \<in> set xs. lt x \<le> n))"

text \<open>The calls on agent11's generic cache; \<open>None\<close> is a call that does not return.\<close>

datatype ('k, 'v) op_a11 =
    A11Set 'k 'v time
  | A11SetWithTTL 'k 'v duration time
  | A11Get 'k time
  | A11Peek 'k time
  | A11Delete 'k
  | A11Len time
  | A11Cleanup time

fun step_a11 :: "('k, 'v) Cache_a11 \<Rightarrow> ('k, 'v) op_a11 \<Rightarrow> ('k, 'v) Cache_a11 option" where
  "step_a11 c (A11Set k v now) = Set_a11 c k v now"
| "step_a11 c (A11SetWithTTL k v ttl' now) = SetWithTTL_a11 c k v ttl' now"
| "step_a11 c (A11Get k now) = Some (fst (Get_a11 c k now))"
| "step_a11 c (A11Peek k now) = Some (fst (Peek_a11 c k now))"
| "step_a11 c (A11Delete k) = Some (fst (Delete_a11 c k))"
| "step_a11 c (A11Len now) = Some (fst (Len_a11 c now))"
| "step_a11 c (A11Cleanup now) = Some (Cleanup_a11 c now)"

fun run_a11 :: "('k, 'v) Cache_a11 \<Rightarrow> ('k, 'v) op_a11 list \<Rightarrow> ('k, 'v) Cache_a11 option" where
  "run_a11 c [] = Some c"
| "run_a11 c (op # ops) = (case step_a11 c op of None \<Rightarrow> None | Some c' \<Rightarrow> run_a11 c' ops)"

text \<open>The calls on agent3's cache.\<close>

datatype ('k, 'v) op_a3 =
    A3Add 'k 'v duration time
  | A3Get 'k time
  | A3Remove 'k
  | A3Len

fun step_a3 :: "('k, ('k, 'v) entry) bounded \<Rightarrow> ('k, 'v) op_a3 \<Rightarrow> ('k, ('k, 'v) entry) bounded" where
  "step_a3 c (A3Add k v ttl' now) = Add_a3 c k v ttl' now"
| "step_a3 c (A3Get k now) = fst (Get_a3 c k now)"
| "step_a3 c (A3Remove k) = Remove_a3 c k"
| "step_a3 c A3Len = c"

fun run_a3 :: "('k, ('k, 'v) entry) bounded \<Rightarrow> ('k, 'v) op_a3 list \<Rightarrow> ('k, ('k, 'v) entry) bounded" where
  "run_a3 c [] = c"
| "run_a3 c (op # ops) = run_a3 (step_a3 c op) ops"

section \<open>Lemmas on the store\<close>

lemmas time_defs = IsZero_def After_def Before_def Add_def

lemmas list_defs = PushFront_def MoveToFront_def Remove_def Back_def ListLen_def

lemma entries_removeElement [simp]: "entries (removeElement c k) = (entries c)(k := None)"
  by (simp add: removeElement_def)

lemma order_removeElement [simp]: "order (removeElement c k) = remove1 k (order c)"
  by (simp add: removeElement_def Remove_def)

lemma capacity_removeElement [simp]: "capacity (removeElement c k) = capacity c"
  by (simp add: removeElement_def)

lemma store_inv_removeElement: "store_inv c \<Longrightarrow> store_inv (removeElement c k)"
  by (auto simp: store_inv_def)

lemma sweepLoop_frame: "\<exists>E L. sweepLoop P ks c = c\<lparr>entries := E, order := L\<rparr>"
proof (induction ks arbitrary: c)
  case Nil
  have "c = c\<lparr>entries := entries c, order := order c\<rparr>" by simp
  then show ?case by (metis sweepLoop.simps(1))
next
  case (Cons a ks)
  show ?case
  proof (cases "\<exists>ent. entries c a = Some ent \<and> P ent")
    case True
    then have "sweepLoop P (a # ks) c = sweepLoop P ks (removeElement c a)" by auto
    moreover obtain E L where
      "sweepLoop P ks (removeElement c a) = (removeElement c a)\<lparr>entries := E, order := L\<rparr>"
      using Cons.IH by blast
    ultimately show ?thesis by (auto simp: removeElement_def)
  next
    case False
    then have "sweepLoop P (a # ks) c = sweepLoop P ks c" by (auto split: option.splits)
    then show ?thesis using Cons.IH by simp
  qed
qed

lemma sweepLoop_entries:
  "distinct ks \<Longrightarrow>
   entries (sweepLoop P ks c) k =
     (if k \<in> set ks then (case entries c k of Some e \<Rightarrow> if P e then None else Some e | None \<Rightarrow> None)
      else entries c k)"
  by (induction ks arbitrary: c) (auto split: option.splits)

lemma sweepLoop_order:
  "distinct ks \<Longrightarrow> distinct (order c) \<Longrightarrow>
   order (sweepLoop P ks c) =
     filter (\<lambda>k. \<not> (k \<in> set ks \<and> (\<exists>e. entries c k = Some e \<and> P e))) (order c)"
proof (induction ks arbitrary: c)
  case Nil
  then show ?case by simp
next
  case (Cons a ks)
  show ?case
  proof (cases "\<exists>ent. entries c a = Some ent \<and> P ent")
    case True
    then have "sweepLoop P (a # ks) c = sweepLoop P ks (removeElement c a)" by auto
    then show ?thesis using Cons True
      apply (simp add: distinct_remove1_removeAll removeAll_filter_not_eq)
      apply (rule filter_cong)
       apply auto
      done
  next
    case False
    then have "sweepLoop P (a # ks) c = sweepLoop P ks c" by (auto split: option.splits)
    then show ?thesis using Cons False
      apply simp
      apply (rule filter_cong)
       apply auto
      done
  qed
qed

text \<open>
  On a store whose map and list agree, one sweep removes exactly the entries the expiry
  test holds of, and keeps the others in their order.
\<close>

lemma sweepBack_entries:
  "store_inv c \<Longrightarrow>
   entries (sweepBack P c) k =
     (case entries c k of Some e \<Rightarrow> if P e then None else Some e | None \<Rightarrow> None)"
  unfolding sweepBack_def
  by (subst sweepLoop_entries) (auto simp: store_inv_def split: option.splits)

lemma sweepBack_order:
  "store_inv c \<Longrightarrow>
   order (sweepBack P c) =
     filter (\<lambda>k. case entries c k of Some e \<Rightarrow> \<not> P e | None \<Rightarrow> False) (order c)"
  unfolding sweepBack_def
  apply (subst sweepLoop_order)
    apply (auto simp: store_inv_def split: option.splits intro!: filter_cong)
  done

lemma sweepBack_frame: "\<exists>E L. sweepBack P c = c\<lparr>entries := E, order := L\<rparr>"
  unfolding sweepBack_def by (rule sweepLoop_frame)

lemma capacity_sweepBack [simp]: "capacity (sweepBack P c) = capacity c"
  using sweepBack_frame [of P c] by auto

lemma store_inv_sweepBack: "store_inv c \<Longrightarrow> store_inv (sweepBack P c)"
  unfolding store_inv_def
  apply (intro conjI)
   apply (simp add: sweepBack_order store_inv_def)
  apply (auto simp: sweepBack_order sweepBack_entries store_inv_def dom_def
      split: option.splits if_splits)
  done

lemma Len_p3_counts:
  "store_inv c \<Longrightarrow>
   snd (Len_p3 c now) = int (card {k. \<exists>e. entries c k = Some e \<and> \<not> isExpired_p3 e now})"
proof -
  assume inv: "store_inv c"
  have "{k. \<exists>e. entries c k = Some e \<and> \<not> isExpired_p3 e now} =
        {k. case entries c k of Some e \<Rightarrow> \<not> isExpired_p3 e now | None \<Rightarrow> False} \<inter> set (order c)"
    using inv by (auto simp: store_inv_def split: option.splits)
  then show ?thesis
    using inv by (simp add: Len_p3_def removeExpiredLocked_p3_def ListLen_def sweepBack_order
        distinct_length_filter store_inv_def Let_def)
qed

lemma remove1_last_distinct: "distinct xs \<Longrightarrow> xs \<noteq> [] \<Longrightarrow> remove1 (last xs) xs = butlast xs"
  by (induction xs) auto

lemma set_MoveToFront [simp]: "set (MoveToFront k xs) = set xs"
proof (cases "k \<in> set xs")
  case True
  have "insert k (set (remove1 k xs)) = set xs"
    using True set_remove1_subset [of k xs] in_set_remove1 [of _ k xs] by blast
  then show ?thesis using True by (simp add: MoveToFront_def)
next
  case False
  then show ?thesis by (simp add: MoveToFront_def)
qed

lemma distinct_MoveToFront [simp]: "distinct xs \<Longrightarrow> distinct (MoveToFront k xs)"
  by (simp add: MoveToFront_def)

lemma length_MoveToFront [simp]: "length (MoveToFront k xs) = length xs"
  by (cases "k \<in> set xs") (auto simp: MoveToFront_def length_remove1 intro: Suc_pred length_pos_if_in_set)

lemma enforce_frame:
  "\<exists>E L. enforceCapacityLocked_p3 c = c\<lparr>entries := E, order := L\<rparr>"
proof (induction c rule: enforceCapacityLocked_p3.induct)
  case (1 c)
  have triv: "c = c\<lparr>entries := entries c, order := order c\<rparr>" by simp
  show ?case
  proof (cases "ListLen (order c) > capacity c \<and> order c \<noteq> []")
    case True
    then have eq: "enforceCapacityLocked_p3 c = enforceCapacityLocked_p3 (removeElement c (last (order c)))"
      by (subst enforceCapacityLocked_p3.simps) (simp add: Back_def)
    from True have "Back (order c) = Some (last (order c))" by (simp add: Back_def)
    from 1 [OF _ this] True obtain E L where
      "enforceCapacityLocked_p3 (removeElement c (last (order c))) = (removeElement c (last (order c)))\<lparr>entries := E, order := L\<rparr>"
      by auto
    with eq show ?thesis by (auto simp: removeElement_def)
  next
    case False
    then have "enforceCapacityLocked_p3 c = c"
      by (subst enforceCapacityLocked_p3.simps) (auto simp: Back_def)
    with triv show ?thesis by metis
  qed
qed

lemma capacity_enforce [simp]: "capacity (enforceCapacityLocked_p3 c) = capacity c"
  using enforce_frame [of c] by auto

lemma enforce_order:
  "distinct (order c) \<Longrightarrow> order (enforceCapacityLocked_p3 c) = take (nat (capacity c)) (order c)"
proof (induction c rule: enforceCapacityLocked_p3.induct)
  case (1 c)
  show ?case
  proof (cases "ListLen (order c) > capacity c \<and> order c \<noteq> []")
    case True
    then have eq: "enforceCapacityLocked_p3 c = enforceCapacityLocked_p3 (removeElement c (last (order c)))"
      by (subst enforceCapacityLocked_p3.simps) (simp add: Back_def)
    from True have bk: "Back (order c) = Some (last (order c))" by (simp add: Back_def)
    have d: "distinct (order (removeElementLocked_p3 c (Some (last (order c)))))"
      using "1.prems" by simp
    have "order (enforceCapacityLocked_p3 (removeElementLocked_p3 c (Some (last (order c)))))
        = take (nat (capacity c)) (butlast (order c))"
      using 1(1) [OF _ bk d] True "1.prems" by (simp add: remove1_last_distinct)
    moreover have "nat (capacity c) < length (order c)"
      using True unfolding ListLen_def by (cases "order c") auto
    ultimately show ?thesis using eq by (simp add: take_butlast)
  next
    case False
    then have "enforceCapacityLocked_p3 c = c"
      by (subst enforceCapacityLocked_p3.simps) (auto simp: Back_def)
    moreover have "order c = [] \<or> length (order c) \<le> nat (capacity c)"
      using False unfolding ListLen_def by auto
    ultimately show ?thesis by auto
  qed
qed

lemma enforce_inv_le:
  "store_inv c \<Longrightarrow> store_inv (enforceCapacityLocked_p3 c) \<and> entries (enforceCapacityLocked_p3 c) \<subseteq>\<^sub>m entries c"
proof (induction c rule: enforceCapacityLocked_p3.induct)
  case (1 c)
  show ?case
  proof (cases "ListLen (order c) > capacity c \<and> order c \<noteq> []")
    case True
    then have eq: "enforceCapacityLocked_p3 c = enforceCapacityLocked_p3 (removeElement c (last (order c)))"
      by (subst enforceCapacityLocked_p3.simps) (simp add: Back_def)
    from True have bk: "Back (order c) = Some (last (order c))" by (simp add: Back_def)
    have "store_inv (removeElementLocked_p3 c (Some (last (order c))))"
      using "1.prems" by (simp add: store_inv_removeElement)
    from 1(1) [OF _ bk this] True
    have inv': "store_inv (enforceCapacityLocked_p3 (removeElement c (last (order c))))"
      and le1: "entries (enforceCapacityLocked_p3 (removeElement c (last (order c)))) \<subseteq>\<^sub>m entries (removeElement c (last (order c)))"
      by (simp_all del: entries_removeElement)
    have le2: "entries (removeElement c (last (order c))) \<subseteq>\<^sub>m entries c"
      by (auto simp: map_le_def)
    have "entries (enforceCapacityLocked_p3 (removeElement c (last (order c)))) \<subseteq>\<^sub>m entries c"
      by (rule map_le_trans [OF le1 le2])
    with inv' show ?thesis unfolding eq by blast
  next
    case False
    then have "enforceCapacityLocked_p3 c = c"
      by (subst enforceCapacityLocked_p3.simps) (auto simp: Back_def)
    with "1.prems" show ?thesis by simp
  qed
qed

lemma enforce_entries:
  assumes "store_inv c"
  shows "entries (enforceCapacityLocked_p3 c) k =
     (if k \<in> set (take (nat (capacity c)) (order c)) then entries c k else None)"
proof -
  let ?c' = "enforceCapacityLocked_p3 c"
  have inv: "store_inv ?c'" and le: "entries ?c' \<subseteq>\<^sub>m entries c"
    using enforce_inv_le [OF assms] by auto
  have ord: "order ?c' = take (nat (capacity c)) (order c)"
    using assms by (simp add: enforce_order store_inv_def)
  show ?thesis
  proof (cases "k \<in> set (take (nat (capacity c)) (order c))")
    case True
    then have "k \<in> dom (entries ?c')" using inv ord by (simp add: store_inv_def)
    then show ?thesis using le True by (auto simp: map_le_def)
  next
    case False
    then have "k \<notin> dom (entries ?c')" using inv ord by (simp add: store_inv_def)
    then show ?thesis using False by auto
  qed
qed

lemma store_inv_touch:
  "store_inv c \<Longrightarrow> entries c k = Some e \<Longrightarrow>
   store_inv (c\<lparr>entries := (entries c)(k \<mapsto> e'), order := MoveToFront k (order c)\<rparr>)"
  by (auto simp: store_inv_def)

lemma store_inv_MoveToFront:
  "store_inv c \<Longrightarrow> store_inv (c\<lparr>order := MoveToFront k (order c)\<rparr>)"
  by (auto simp: store_inv_def)

lemma store_inv_push:
  "store_inv c \<Longrightarrow> entries c k = None \<Longrightarrow>
   store_inv (c\<lparr>entries := (entries c)(k \<mapsto> e'), order := PushFront k (order c)\<rparr>)"
  by (auto simp: store_inv_def PushFront_def)

lemma bounded_inv_removeElement: "bounded_inv c \<Longrightarrow> bounded_inv (removeElement c k)"
  by (auto simp: bounded_inv_def store_inv_removeElement ListLen_def length_remove1)

lemma bounded_inv_sweepBack: "bounded_inv c \<Longrightarrow> bounded_inv (sweepBack P c)"
proof -
  assume b: "bounded_inv c"
  then have "length (order (sweepBack P c)) \<le> length (order c)"
    by (simp add: bounded_inv_def sweepBack_order)
  with b show ?thesis
    by (auto simp: bounded_inv_def store_inv_sweepBack ListLen_def)
qed

lemma bounded_inv_enforce:
  assumes "store_inv c" "0 < capacity c"
  shows "bounded_inv (enforceCapacityLocked_p3 c)"
proof -
  have "order (enforceCapacityLocked_p3 c) = take (nat (capacity c)) (order c)"
    using assms by (simp add: enforce_order store_inv_def)
  then have "ListLen (order (enforceCapacityLocked_p3 c)) \<le> capacity c"
    using assms by (simp add: ListLen_def)
  then show ?thesis
    using assms enforce_inv_le [of c] by (simp add: bounded_inv_def)
qed

lemma stop_enforce [simp]:
  "stopOnce (enforceCapacityLocked_p3 c) = stopOnce c"
  "stopCh (enforceCapacityLocked_p3 c) = stopCh c"
  "defaultTTL (enforceCapacityLocked_p3 c) = defaultTTL c"
  using enforce_frame [of c] by auto

lemma stop_sweepBack [simp]:
  "stopOnce (sweepBack P c) = stopOnce c"
  "stopCh (sweepBack P c) = stopCh c"
  "defaultTTL (sweepBack P c) = defaultTTL c"
  using sweepBack_frame [of P c] by auto

lemma fields_removeElement [simp]:
  "stopOnce (removeElement c k) = stopOnce c"
  "stopCh (removeElement c k) = stopCh c"
  "defaultTTL (removeElement c k) = defaultTTL c"
  by (simp_all add: removeElement_def)

lemma SetWithTTL_p3_inv:
  assumes "inv_p3 c" "SetWithTTL_p3 c k v ttl' now = Inr c'"
  shows "inv_p3 c' \<and> capacity c' = capacity c"
proof (cases "entries c k")
  case None
  let ?d = "c\<lparr>entries := (entries c)(k \<mapsto> \<lparr>key = k, val = v,
      expiresAt = (if (if ttl' = 0 then defaultTTL c else ttl') > 0
                   then Add now (if ttl' = 0 then defaultTTL c else ttl') else 0)\<rparr>),
      order := PushFront k (order c)\<rparr>"
  have c': "c' = enforceCapacityLocked_p3 ?d"
    using assms(2) None by (simp add: SetWithTTL_p3_def Let_def split: if_splits)
  have "store_inv ?d" using assms(1) None by (simp add: inv_p3_def bounded_inv_def store_inv_push)
  moreover have "0 < capacity ?d" using assms(1) by (simp add: inv_p3_def bounded_inv_def)
  ultimately have "bounded_inv c'" unfolding c' by (rule bounded_inv_enforce)
  then show ?thesis using assms(1) by (simp add: inv_p3_def c')
next
  case (Some ent)
  then show ?thesis using assms
    by (auto simp: SetWithTTL_p3_def Let_def inv_p3_def bounded_inv_def store_inv_touch ListLen_def
        split: if_splits)
qed

lemma Get_p3_inv: "inv_p3 c \<Longrightarrow> inv_p3 (fst (Get_p3 c k now)) \<and> capacity (fst (Get_p3 c k now)) = capacity c"
  by (auto simp: Get_p3_def inv_p3_def bounded_inv_removeElement split: option.splits)
    (auto simp: bounded_inv_def store_inv_MoveToFront ListLen_def)

lemma Delete_p3_inv: "inv_p3 c \<Longrightarrow> inv_p3 (fst (Delete_p3 c k)) \<and> capacity (fst (Delete_p3 c k)) = capacity c"
  by (auto simp: Delete_p3_def inv_p3_def bounded_inv_removeElement split: option.splits)

lemma sweep_p3_inv: "inv_p3 c \<Longrightarrow> inv_p3 (removeExpiredLocked_p3 c now) \<and> capacity (removeExpiredLocked_p3 c now) = capacity c"
  by (simp add: removeExpiredLocked_p3_def inv_p3_def bounded_inv_sweepBack)

lemma Close_p3_inv: "inv_p3 c \<Longrightarrow> \<exists>c'. Close_p3 c = Inr c' \<and> inv_p3 c' \<and> capacity c' = capacity c"
  by (auto simp: Close_p3_def inv_p3_def bounded_inv_def store_inv_def)

lemma step_p3_inv:
  assumes that: "inv_p3 c"
  shows "\<exists>c'. step_p3 c op = Inr c' \<and> inv_p3 c' \<and> capacity c' = capacity c"
proof (cases op)
  case (OpSet k v now)
  show ?thesis
  proof (cases "SetWithTTL_p3 c k v 0 now")
    case (Inl e)
    then show ?thesis using OpSet that by (simp add: Set_p3_def)
  next
    case (Inr c')
    then show ?thesis using OpSet SetWithTTL_p3_inv [OF that Inr] by (simp add: Set_p3_def)
  qed
next
  case (OpSetWithTTL k v ttl' now)
  show ?thesis
  proof (cases "SetWithTTL_p3 c k v ttl' now")
    case (Inl e)
    then show ?thesis using OpSetWithTTL that by simp
  next
    case (Inr c')
    then show ?thesis using OpSetWithTTL SetWithTTL_p3_inv [OF that Inr] by simp
  qed
next
  case (OpGet k now)
  then show ?thesis using that Get_p3_inv [of c k now] by simp
next
  case (OpDelete k)
  then show ?thesis using that Delete_p3_inv [of c k] by simp
next
  case (OpLen now)
  then show ?thesis using that sweep_p3_inv [of c now] by (simp add: Len_p3_def Let_def)
next
  case (OpSweep now)
  then show ?thesis using that sweep_p3_inv [of c now] by simp
next
  case OpClose
  then show ?thesis using that Close_p3_inv [of c] by simp
qed

lemma run_p3_inv:
  "inv_p3 c \<Longrightarrow> \<exists>c'. run_p3 c ops = Inr c' \<and> inv_p3 c' \<and> capacity c' = capacity c"
proof (induction ops arbitrary: c)
  case Nil
  then show ?case by simp
next
  case (Cons op ops)
  from step_p3_inv [OF Cons.prems, of op] obtain c1 where
    s: "step_p3 c op = Inr c1" "inv_p3 c1" "capacity c1 = capacity c" by blast
  from Cons.IH [OF s(2)] s show ?case by auto
qed

lemma New_p3_inv: "New_p3 cap opts = Inr c \<Longrightarrow> inv_p3 c \<and> capacity c = cap"
  by (auto simp: New_p3_def inv_p3_def bounded_inv_def store_inv_def ListLen_def Let_def split: if_splits)

section \<open>Construction with a capacity that is not positive\<close>

text \<open>
  C6, as the code has it: for every capacity less than or equal to zero, \<^verbatim>\<open>New\<close> of the
  cache with the injectable clock fails with \<^verbatim>\<open>ErrInvalidCapacity\<close> and returns no cache,
  whatever the options; \<^verbatim>\<open>New\<close> of agent14 returns a cache whose capacity is the default
  128.
\<close>

theorem New_capacity_not_positive:
  "cap \<le> 0 \<Longrightarrow>
     (New_p3 cap opts :: error + ('k, 'v) Cache_p3) = Inl ErrInvalidCapacity \<and>
     (New_a14 \<lparr>Capacity = cap, CleanupInterval = interval\<rparr> :: ('k, ('k, 'v) entry) stoppable)
        = \<lparr>entries = Map.empty, order = [], capacity = 128, stopCh = Open\<rparr>"
  by (simp add: New_p3_def New_a14_def)

theorem New_capacity_not_positive_witness:
  "(-1::int) \<le> 0 \<and>
     (New_p3 (-1) [WithDefaultTTL 5] :: error + (string, int) Cache_p3) = Inl ErrInvalidCapacity \<and>
     (New_a14 \<lparr>Capacity = -1, CleanupInterval = 7\<rparr> :: (string, (string, int) entry) stoppable)
        = \<lparr>entries = Map.empty, order = [], capacity = 128, stopCh = Open\<rparr>"
  using New_capacity_not_positive [of "-1" "[WithDefaultTTL 5]" 7] by simp

text \<open>
  The claim as first stated (construction fails, nothing is clamped) is false of agent14:
  with capacity 0 its \<^verbatim>\<open>New\<close> returns a cache of capacity 128.
\<close>

theorem New_a14_clamps_counterexample:
  "(New_a14 \<lparr>Capacity = 0, CleanupInterval = 0\<rparr> :: (string, (string, int) entry) stoppable)
     = \<lparr>entries = Map.empty, order = [], capacity = 128, stopCh = Open\<rparr>"
  by (simp add: New_a14_def)

section \<open>The expiry test at the boundary\<close>

text \<open>
  C3, as the code has it: for an entry whose \<^verbatim>\<open>expiresAt\<close> is set, \<^verbatim>\<open>isExpired\<close> of the cache
  with the injectable clock holds exactly when the clock reading is at or after
  \<^verbatim>\<open>expiresAt\<close>, and its \<^verbatim>\<open>Get\<close> and agent14's \<^verbatim>\<open>Get\<close> report not-found exactly then;
  agent13's \<^verbatim>\<open>Get\<close> reports not-found exactly when the reading is strictly after
  \<^verbatim>\<open>expiration\<close>, so at a reading equal to it the value is still returned.
\<close>

theorem expiry_test_boundary:
  "entries c k = Some ent \<Longrightarrow> entries d k = Some ent \<Longrightarrow> \<not> IsZero (expiresAt ent) \<Longrightarrow>
     isExpired_p3 ent now = (expiresAt ent \<le> now) \<and>
     (snd (Get_p3 c k now) = None) = (expiresAt ent \<le> now) \<and>
     (snd (Get_a14 d k now) = None) = (expiresAt ent \<le> now) \<and>
     (snd (Get_a13 d k now) = None) = (expiresAt ent < now)"
  by (auto simp: isExpired_p3_def Get_p3_def Get_a14_def Get_a13_def time_defs)

theorem expiry_test_boundary_witness:
  "isExpired_p3 \<lparr>key = ''k'', val = 1::int, expiresAt = 110\<rparr> 110 \<and>
   snd (Get_p3 \<lparr>entries = [''k'' \<mapsto> \<lparr>key = ''k'', val = 1::int, expiresAt = 110\<rparr>],
                order = [''k''], capacity = 2, stopCh = Open, defaultTTL = 0,
                cleanupInterval = 1000000000, stopOnce = False\<rparr> ''k'' 110) = None \<and>
   snd (Get_a14 \<lparr>entries = [''k'' \<mapsto> \<lparr>key = ''k'', val = 1::int, expiresAt = 110\<rparr>],
                 order = [''k''], capacity = 2, stopCh = Open\<rparr> ''k'' 110) = None \<and>
   snd (Get_a13 \<lparr>entries = [''k'' \<mapsto> \<lparr>key = ''k'', val = 1::int, expiresAt = 110\<rparr>],
                 order = [''k''], capacity = 2, stopCh = Open\<rparr> ''k'' 110) \<noteq> None"
  using expiry_test_boundary
    [of "\<lparr>entries = [''k'' \<mapsto> \<lparr>key = ''k'', val = 1::int, expiresAt = 110\<rparr>],
          order = [''k''], capacity = 2, stopCh = Open, defaultTTL = 0,
          cleanupInterval = 1000000000, stopOnce = False\<rparr>"
        "''k''" "\<lparr>key = ''k'', val = 1::int, expiresAt = 110\<rparr>"
        "\<lparr>entries = [''k'' \<mapsto> \<lparr>key = ''k'', val = 1::int, expiresAt = 110\<rparr>],
          order = [''k''], capacity = 2, stopCh = Open\<rparr>" 110]
  by (simp add: IsZero_def)

text \<open>
  The claim as first stated is false of agent13: an entry set at reading 100 with a ttl
  of 10 is still returned by \<^verbatim>\<open>Get\<close> at reading 110.
\<close>

theorem Get_a13_boundary_counterexample:
  "snd (Get_a13 (Set_a13 (New_a13 2 0) ''k'' (1::int) 10 100) ''k'' 110) = Some 1"
  by (simp add: Get_a13_def Set_a13_def New_a13_def time_defs list_defs)

section \<open>What \<^verbatim>\<open>Len\<close> counts\<close>

lemma Get_a14_found:
  "(snd (Get_a14 d k now) \<noteq> None) =
   (\<exists>e. entries d k = Some e \<and> (IsZero (expiresAt e) \<or> Before now (expiresAt e)))"
  by (auto simp: Get_a14_def split: option.splits)

lemma card_split:
  assumes "finite A" "\<forall>k. P k \<longrightarrow> k \<in> A"
  shows "card A = card {k. P k} + card {k. k \<in> A \<and> \<not> P k}"
proof -
  have un: "{k. P k} \<union> {k. k \<in> A \<and> \<not> P k} = A" using assms(2) by auto
  have disj: "{k. P k} \<inter> {k. k \<in> A \<and> \<not> P k} = {}" by auto
  have "finite {k. P k}" "finite {k. k \<in> A \<and> \<not> P k}"
    using assms by (auto intro: finite_subset [of _ A])
  then have "card ({k. P k} \<union> {k. k \<in> A \<and> \<not> P k}) = card {k. P k} + card {k. k \<in> A \<and> \<not> P k}"
    using disj by (rule card_Un_disjoint)
  then show ?thesis unfolding un .
qed

lemma Len_a14_found_and_expired:
  assumes "store_inv d"
  shows "Len_a14 d = int (card {k. snd (Get_a14 d k now) \<noteq> None}) +
                     int (card {k. entries d k \<noteq> None \<and> snd (Get_a14 d k now) = None})"
proof -
  have "set (order d) = dom (entries d)" using assms by (simp add: store_inv_def)
  then have fin: "finite (dom (entries d))" by (metis List.finite_set)
  have sub: "\<forall>k. snd (Get_a14 d k now) \<noteq> None \<longrightarrow> k \<in> dom (entries d)"
    unfolding Get_a14_found by (auto simp: dom_def)
  have eq: "{k. k \<in> dom (entries d) \<and> \<not> snd (Get_a14 d k now) \<noteq> None} =
            {k. entries d k \<noteq> None \<and> snd (Get_a14 d k now) = None}"
    by (simp add: dom_def)
  from card_split [OF fin sub] show ?thesis unfolding eq Len_a14_def by (simp only: of_nat_add)
qed

text \<open>
  C5, as the code has it: after every sequence of operations on the cache with the
  injectable clock, \<^verbatim>\<open>Len\<close> returns the number of keys that are resident and not expired
  at the clock reading (it removes the expired entries first). \<^verbatim>\<open>Len\<close> of agent14 returns
  the number of resident keys, expired or not: the keys \<^verbatim>\<open>Get\<close> would find at that reading
  and the resident keys it would report not found.
\<close>

theorem Len_counts_live_entries:
  "New_p3 cap opts = Inr c0 \<Longrightarrow> run_p3 c0 ops = Inr c \<Longrightarrow> store_inv d \<Longrightarrow>
     snd (Len_p3 c now) = int (card {k. \<exists>e. entries c k = Some e \<and> \<not> isExpired_p3 e now}) \<and>
     Len_a14 d = int (card (dom (entries d))) \<and>
     Len_a14 d = int (card {k. snd (Get_a14 d k now) \<noteq> None}) +
                 int (card {k. entries d k \<noteq> None \<and> snd (Get_a14 d k now) = None})"
proof -
  assume n: "New_p3 cap opts = Inr c0" and r: "run_p3 c0 ops = Inr c" and d: "store_inv d"
  from New_p3_inv [OF n] have "inv_p3 c0" by simp
  from run_p3_inv [OF this, of ops] r have "inv_p3 c" by simp
  then have "store_inv c" by (simp add: inv_p3_def bounded_inv_def)
  then have "snd (Len_p3 c now) = int (card {k. \<exists>e. entries c k = Some e \<and> \<not> isExpired_p3 e now})"
    by (rule Len_p3_counts)
  moreover have "Len_a14 d = int (card (dom (entries d)))"
    by (simp add: Len_a14_def)
  ultimately show ?thesis using Len_a14_found_and_expired [OF d, of now] by blast
qed

theorem Len_counts_live_entries_witness:
  "New_p3 2 [] = Inr (\<lparr>entries = Map.empty, order = [], capacity = 2, stopCh = Open, defaultTTL = 0,
       cleanupInterval = 1000000000, stopOnce = False\<rparr> :: (string, int) Cache_p3) \<and>
   run_p3 \<lparr>entries = Map.empty, order = [], capacity = 2, stopCh = Open, defaultTTL = 0,
       cleanupInterval = 1000000000, stopOnce = False\<rparr>
     [OpSetWithTTL ''s'' (1::int) 10 100, OpSet ''k'' 2 100] =
     Inr \<lparr>entries = [''s'' \<mapsto> \<lparr>key = ''s'', val = 1, expiresAt = 110\<rparr>,
                       ''k'' \<mapsto> \<lparr>key = ''k'', val = 2, expiresAt = 0\<rparr>],
          order = [''k'', ''s''], capacity = 2, stopCh = Open, defaultTTL = 0,
          cleanupInterval = 1000000000, stopOnce = False\<rparr> \<and>
   snd (Len_p3 \<lparr>entries = [''s'' \<mapsto> \<lparr>key = ''s'', val = 1::int, expiresAt = 110\<rparr>,
                       ''k'' \<mapsto> \<lparr>key = ''k'', val = 2, expiresAt = 0\<rparr>],
          order = [''k'', ''s''], capacity = 2, stopCh = Open, defaultTTL = 0,
          cleanupInterval = 1000000000, stopOnce = False\<rparr> 200) = 1 \<and>
   Len_a14 \<lparr>entries = [''s'' \<mapsto> \<lparr>key = ''s'', val = 1::int, expiresAt = 110\<rparr>],
            order = [''s''], capacity = 2, stopCh = Open\<rparr> = 1 \<and>
   snd (Get_a14 \<lparr>entries = [''s'' \<mapsto> \<lparr>key = ''s'', val = 1::int, expiresAt = 110\<rparr>],
            order = [''s''], capacity = 2, stopCh = Open\<rparr> ''s'' 110) = None"
proof -
  let ?init = "\<lparr>entries = Map.empty, order = [], capacity = 2, stopCh = Open, defaultTTL = 0,
       cleanupInterval = 1000000000, stopOnce = False\<rparr> :: (string, int) Cache_p3"
  let ?fin = "\<lparr>entries = [''s'' \<mapsto> \<lparr>key = ''s'', val = 1::int, expiresAt = 110\<rparr>,
                       ''k'' \<mapsto> \<lparr>key = ''k'', val = 2, expiresAt = 0\<rparr>],
          order = [''k'', ''s''], capacity = 2, stopCh = Open, defaultTTL = 0,
          cleanupInterval = 1000000000, stopOnce = False\<rparr>"
  let ?d = "\<lparr>entries = [''s'' \<mapsto> \<lparr>key = ''s'', val = 1::int, expiresAt = 110\<rparr>],
            order = [''s''], capacity = 2, stopCh = Open\<rparr>"
  have n: "New_p3 2 [] = Inr ?init"
    by (simp add: New_p3_def defaultCleanupInterval_def)
  have r: "run_p3 ?init [OpSetWithTTL ''s'' (1::int) 10 100, OpSet ''k'' 2 100] = Inr ?fin"
    by (simp add: Set_p3_def SetWithTTL_p3_def enforceCapacityLocked_p3.simps time_defs list_defs)
  have d: "store_inv ?d" by (simp add: store_inv_def)
  have live: "{k. \<exists>e. entries ?fin k = Some e \<and> \<not> isExpired_p3 e 200} = {''k''}"
    by (auto simp: isExpired_p3_def time_defs split: if_splits)
  have g: "snd (Get_a14 ?d ''s'' 110) = None" by (simp add: Get_a14_def time_defs)
  from Len_counts_live_entries [OF n r d, of 200]
  have "snd (Len_p3 ?fin 200) = 1" and "Len_a14 ?d = int (card (dom (entries ?d)))"
    unfolding live by simp_all
  then have "snd (Len_p3 ?fin 200) = 1" and "Len_a14 ?d = 1" by simp_all
  with n r g show ?thesis by blast
qed

text \<open>
  The claim as first stated is false of agent14: with one entry, set at reading 100 with
  a ttl of 10, \<^verbatim>\<open>Len\<close> is 1 although \<^verbatim>\<open>Get\<close> at reading 200 reports the key not found.
\<close>

theorem Len_a14_counts_expired_counterexample:
  "Len_a14 (Set_a14 (New_a14 \<lparr>Capacity = 2, CleanupInterval = 0\<rparr>) ''k'' (1::int) 10 100) = 1 \<and>
   snd (Get_a14 (Set_a14 (New_a14 \<lparr>Capacity = 2, CleanupInterval = 0\<rparr>) ''k'' (1::int) 10 100) ''k'' 200) = None"
  by (simp add: Len_a14_def Get_a14_def Set_a14_def New_a14_def time_defs list_defs)

section \<open>Closing twice\<close>

lemma Close_p3_twice: "Close_p3 c = Inr c' \<Longrightarrow> Close_p3 c' = Inr c'"
  by (auto simp: Close_p3_def split: if_splits sum.splits)

lemma Close_p3_reachable:
  "New_p3 cap opts = Inr c0 \<Longrightarrow> run_p3 c0 ops = Inr c \<Longrightarrow>
   \<exists>c'. Close_p3 c = Inr c' \<and> Close_p3 c' = Inr c'"
proof -
  assume n: "New_p3 cap opts = Inr c0" and r: "run_p3 c0 ops = Inr c"
  from New_p3_inv [OF n] have "inv_p3 c0" by simp
  from run_p3_inv [OF this, of ops] r have "inv_p3 c" by simp
  from Close_p3_inv [OF this] obtain c' where "Close_p3 c = Inr c'" by blast
  then show ?thesis using Close_p3_twice by blast
qed

lemma Close_a12_twice: "Close_a12 c = Inr c' \<Longrightarrow> Close_a12 c' = Inr c'"
  by (auto simp: Close_a12_def split: if_splits sum.splits)

text \<open>
  C9 fails on agent14: \<^verbatim>\<open>Close\<close> is \<^verbatim>\<open>close(c.stopCh)\<close> with no guard, so whenever a call of
  \<^verbatim>\<open>Close\<close> returns, the next call panics with "close of closed channel". (The caches
  above close under a \<^verbatim>\<open>sync.Once\<close>: a second call returns and changes nothing.)
\<close>

theorem Close_a14_second_call_panics:
  "Close_a14 c = Inr c' \<Longrightarrow> Close_a14 c' = Inl CloseOfClosedChannel"
  by (cases "stopCh c") (auto simp: Close_a14_def split: sum.splits)

theorem Close_a14_second_call_panics_witness:
  "Close_a14 (New_a14 \<lparr>Capacity = 1, CleanupInterval = 0\<rparr> :: (string, (string, int) entry) stoppable)
     = Inr \<lparr>entries = Map.empty, order = [], capacity = 1, stopCh = Closed\<rparr> \<and>
   Close_a14 (\<lparr>entries = Map.empty, order = [], capacity = 1, stopCh = Closed\<rparr>
               :: (string, (string, int) entry) stoppable) = Inl CloseOfClosedChannel"
proof -
  have first: "Close_a14 (New_a14 \<lparr>Capacity = 1, CleanupInterval = 0\<rparr> :: (string, (string, int) entry) stoppable)
     = Inr \<lparr>entries = Map.empty, order = [], capacity = 1, stopCh = Closed\<rparr>"
    by (simp add: Close_a14_def New_a14_def)
  from Close_a14_second_call_panics [OF first] first show ?thesis by blast
qed

section \<open>One sweep and the expired entries\<close>

lemma sweep_p3_removes_every_expired:
  "store_inv c \<Longrightarrow> entries c k = Some e \<Longrightarrow> isExpired_p3 e now \<Longrightarrow>
   entries (removeExpiredLocked_p3 c now) k = None \<and> k \<notin> set (order (removeExpiredLocked_p3 c now))"
  by (simp add: removeExpiredLocked_p3_def sweepBack_entries sweepBack_order)

lemma sweep_a14_removes_every_expired:
  "store_inv c \<Longrightarrow> entries c k = Some e \<Longrightarrow> \<not> IsZero (expiresAt e) \<Longrightarrow> After now (expiresAt e) \<Longrightarrow>
   entries (removeExpired_a14 c now) k = None \<and> k \<notin> set (order (removeExpired_a14 c now))"
  by (simp add: removeExpired_a14_def sweepBack_entries sweepBack_order)

text \<open>
  C7 fails on agent11's \<^verbatim>\<open>LRU\<close>: one tick of \<^verbatim>\<open>cleanup\<close> walks from the back and stops at
  the first entry that is not expired, so when the entry at the back is not expired the
  tick removes nothing, whatever lies in front of it. (The sweeps above visit every
  element and remove every entry their expiry test holds of.)
\<close>

theorem cleanup_a11l_stops_at_live_tail:
  "order c = xs @ [b] \<Longrightarrow> entries c b = Some e \<Longrightarrow> \<not> After now (expiresAt e) \<Longrightarrow>
   cleanup_a11l c now = c"
  by (simp add: cleanup_a11l_def)

theorem cleanup_a11l_stops_at_live_tail_witness:
  "order (Put_a11l (Put_a11l (New_a11l 2) ''a'' (1::int) 1000 0) ''b'' 2 10 0) = [''b''] @ [''a''] \<and>
   entries (Put_a11l (Put_a11l (New_a11l 2) ''a'' (1::int) 1000 0) ''b'' 2 10 0) ''a''
     = Some \<lparr>key = ''a'', val = 1, expiresAt = 1000\<rparr> \<and>
   \<not> After 100 (expiresAt \<lparr>key = ''a'', val = 1::int, expiresAt = 1000\<rparr>) \<and>
   entries (Put_a11l (Put_a11l (New_a11l 2) ''a'' (1::int) 1000 0) ''b'' 2 10 0) ''b''
     = Some \<lparr>key = ''b'', val = 2, expiresAt = 10\<rparr> \<and>
   After 100 (expiresAt \<lparr>key = ''b'', val = 2::int, expiresAt = 10\<rparr>) \<and>
   cleanup_a11l (Put_a11l (Put_a11l (New_a11l 2) ''a'' (1::int) 1000 0) ''b'' 2 10 0) 100
     = Put_a11l (Put_a11l (New_a11l 2) ''a'' (1::int) 1000 0) ''b'' 2 10 0"
proof -
  let ?s = "Put_a11l (Put_a11l (New_a11l 2) ''a'' (1::int) 1000 0) ''b'' 2 10 0"
  have o: "order ?s = [''b''] @ [''a'']"
    by (simp add: Put_a11l_def New_a11l_def time_defs list_defs)
  have a: "entries ?s ''a'' = Some \<lparr>key = ''a'', val = 1, expiresAt = 1000\<rparr>"
    by (simp add: Put_a11l_def New_a11l_def time_defs list_defs)
  have b: "entries ?s ''b'' = Some \<lparr>key = ''b'', val = 2, expiresAt = 10\<rparr>"
    by (simp add: Put_a11l_def New_a11l_def time_defs list_defs)
  have live: "\<not> After 100 (expiresAt \<lparr>key = ''a'', val = 1::int, expiresAt = 1000\<rparr>)"
    by (simp add: After_def)
  have dead: "After 100 (expiresAt \<lparr>key = ''b'', val = 2::int, expiresAt = 10\<rparr>)"
    by (simp add: After_def)
  from cleanup_a11l_stops_at_live_tail [OF o a live] o a b live dead show ?thesis by blast
qed

section \<open>\<^verbatim>\<open>Delete\<close> of an expired entry\<close>

lemma live_keys_without_expired:
  "entries c k = Some ent \<Longrightarrow> isExpired_p3 ent now \<Longrightarrow>
   {k'. \<exists>e. entries c k' = Some e \<and> \<not> isExpired_p3 e now} =
   {k'. k' \<noteq> k \<and> (\<exists>e. entries c k' = Some e \<and> \<not> isExpired_p3 e now)}"
  by auto

lemma Len_a14_removeElement:
  assumes "store_inv a" "entries a k = Some e"
  shows "Len_a14 (removeElement a k) = Len_a14 a - 1"
proof -
  have "set (order a) = dom (entries a)" using assms(1) by (simp add: store_inv_def)
  then have fin: "finite (dom (entries a))" by (metis List.finite_set)
  have k: "k \<in> dom (entries a)" using assms(2) by (simp add: dom_def)
  from fin k have pos: "0 < card (dom (entries a))" by (auto simp: card_gt_0_iff)
  have "card (dom (entries a) - {k}) = card (dom (entries a)) - 1"
    using k by (rule card_Diff_singleton)
  with pos have "int (card (dom (entries a) - {k})) = int (card (dom (entries a))) - 1"
    by simp
  then show ?thesis by (simp add: Len_a14_def)
qed

lemma Len_p6_removeElement:
  assumes "store_inv p" "entries p k = Some e"
  shows "Len_p6 (removeElement p k) = Len_p6 p - 1"
proof -
  have k: "k \<in> set (order p)" using assms by (auto simp: store_inv_def)
  then have pos: "0 < length (order p)" by (rule length_pos_if_in_set)
  have "length (remove1 k (order p)) = length (order p) - 1"
    using k by (simp add: length_remove1)
  with pos have "int (length (remove1 k (order p))) = int (length (order p)) - 1"
    by arith
  then show ?thesis by (simp add: Len_p6_def ListLen_def)
qed

lemma Len_p3_after_Delete_expired:
  assumes "store_inv c" "entries c k = Some ent" "isExpired_p3 ent now"
  shows "snd (Len_p3 (fst (Delete_p3 c k)) now) = snd (Len_p3 c now)"
proof -
  have d: "fst (Delete_p3 c k) = removeElement c k" using assms(2) by (simp add: Delete_p3_def)
  have inv': "store_inv (removeElement c k)" using assms(1) by (rule store_inv_removeElement)
  have "{k'. \<exists>e. entries (removeElement c k) k' = Some e \<and> \<not> isExpired_p3 e now} =
        {k'. \<exists>e. entries c k' = Some e \<and> \<not> isExpired_p3 e now}"
    using assms(2,3) by auto
  then show ?thesis unfolding d Len_p3_counts [OF inv'] Len_p3_counts [OF assms(1)] by simp
qed

text \<open>
  C10, as the code has it: \<^verbatim>\<open>Delete\<close> does not look at the expiry. For a key that is
  resident and already expired at the clock reading, \<^verbatim>\<open>Delete\<close> returns true and removes
  the entry, in the cache with the injectable clock, in the cache with the janitor and in
  agent14, although \<^verbatim>\<open>Get\<close> at that reading reports the key not found in all three. Only
  \<^verbatim>\<open>Len\<close> of the cache with the injectable clock leaves the key out: it counts the other
  live keys, the same before and after the \<^verbatim>\<open>Delete\<close>. \<^verbatim>\<open>Len\<close> of the cache with the janitor
  and of agent14 counts the expired key until it is removed: on a store whose map and list
  agree, the \<^verbatim>\<open>Delete\<close> lowers it by one.
\<close>

theorem Delete_ignores_expiration:
  "store_inv c \<Longrightarrow> entries c k = Some ent \<Longrightarrow> isExpired_p3 ent now \<Longrightarrow>
   entries p k = Some ent6 \<Longrightarrow> ttl ent6 > 0 \<Longrightarrow> After now (expiresAt ent6) \<Longrightarrow>
   entries a k = Some enta \<Longrightarrow> \<not> IsZero (expiresAt enta) \<Longrightarrow> \<not> Before now (expiresAt enta) \<Longrightarrow>
     snd (Delete_p3 c k) = True \<and> entries (fst (Delete_p3 c k)) k = None \<and>
     snd (Get_p3 c k now) = None \<and>
     snd (Len_p3 c now) =
       int (card {k'. k' \<noteq> k \<and> (\<exists>e. entries c k' = Some e \<and> \<not> isExpired_p3 e now)}) \<and>
     snd (Len_p3 (fst (Delete_p3 c k)) now) = snd (Len_p3 c now) \<and>
     snd (Delete_p6 p k) = True \<and> entries (fst (Delete_p6 p k)) k = None \<and>
     snd (Get_p6 p k now) = None \<and>
     (store_inv p \<longrightarrow> Len_p6 (fst (Delete_p6 p k)) = Len_p6 p - 1) \<and>
     snd (Delete_a14 a k) = True \<and> entries (fst (Delete_a14 a k)) k = None \<and>
     snd (Get_a14 a k now) = None \<and>
     (store_inv a \<longrightarrow> Len_a14 (fst (Delete_a14 a k)) = Len_a14 a - 1)"
proof -
  assume inv: "store_inv c" and c: "entries c k = Some ent" "isExpired_p3 ent now"
    and p: "entries p k = Some ent6" "ttl ent6 > 0" "After now (expiresAt ent6)"
    and a: "entries a k = Some enta" "\<not> IsZero (expiresAt enta)" "\<not> Before now (expiresAt enta)"
  have "snd (Len_p3 c now) =
       int (card {k'. k' \<noteq> k \<and> (\<exists>e. entries c k' = Some e \<and> \<not> isExpired_p3 e now)})"
    using Len_p3_counts [OF inv, of now] live_keys_without_expired [OF c] by simp
  moreover have "snd (Len_p3 (fst (Delete_p3 c k)) now) = snd (Len_p3 c now)"
    using inv c by (rule Len_p3_after_Delete_expired)
  moreover have "snd (Delete_p3 c k) = True \<and> entries (fst (Delete_p3 c k)) k = None \<and>
     snd (Get_p3 c k now) = None"
    using c by (simp add: Delete_p3_def Get_p3_def)
  moreover have "snd (Delete_p6 p k) = True \<and> entries (fst (Delete_p6 p k)) k = None \<and>
     snd (Get_p6 p k now) = None"
    using p by (simp add: Delete_p6_def Get_p6_def removeElementLocked_p6_def)
  moreover have "store_inv p \<longrightarrow> Len_p6 (fst (Delete_p6 p k)) = Len_p6 p - 1"
    using p(1) Len_p6_removeElement [of p k ent6]
    by (simp add: Delete_p6_def removeElementLocked_p6_def)
  moreover have "snd (Delete_a14 a k) = True \<and> entries (fst (Delete_a14 a k)) k = None \<and>
     snd (Get_a14 a k now) = None"
    using a by (simp add: Delete_a14_def Get_a14_def removeElementLocked_a14_def)
  moreover have "store_inv a \<longrightarrow> Len_a14 (fst (Delete_a14 a k)) = Len_a14 a - 1"
    using a(1) Len_a14_removeElement [of a k enta]
    by (simp add: Delete_a14_def removeElementLocked_a14_def)
  ultimately show ?thesis by blast
qed

theorem Delete_ignores_expiration_witness:
  "snd (Delete_p3 \<lparr>entries = [''k'' \<mapsto> \<lparr>key = ''k'', val = 1::int, expiresAt = 110\<rparr>],
                order = [''k''], capacity = 2, stopCh = Open, defaultTTL = 0,
                cleanupInterval = 1000000000, stopOnce = False\<rparr> ''k'') = True \<and>
   snd (Get_p3 \<lparr>entries = [''k'' \<mapsto> \<lparr>key = ''k'', val = 1::int, expiresAt = 110\<rparr>],
                order = [''k''], capacity = 2, stopCh = Open, defaultTTL = 0,
                cleanupInterval = 1000000000, stopOnce = False\<rparr> ''k'' 200) = None \<and>
   snd (Len_p3 \<lparr>entries = [''k'' \<mapsto> \<lparr>key = ''k'', val = 1::int, expiresAt = 110\<rparr>],
                order = [''k''], capacity = 2, stopCh = Open, defaultTTL = 0,
                cleanupInterval = 1000000000, stopOnce = False\<rparr> 200) = 0 \<and>
   snd (Delete_p6 \<lparr>entries = [''k'' \<mapsto> \<lparr>key = ''k'', val = 1::int, expiresAt = 110, ttl = 10\<rparr>],
                order = [''k''], capacity = 2, stopCh = Open\<rparr> ''k'') = True \<and>
   snd (Get_p6 \<lparr>entries = [''k'' \<mapsto> \<lparr>key = ''k'', val = 1::int, expiresAt = 110, ttl = 10\<rparr>],
                order = [''k''], capacity = 2, stopCh = Open\<rparr> ''k'' 200) = None \<and>
   Len_p6 \<lparr>entries = [''k'' \<mapsto> \<lparr>key = ''k'', val = 1::int, expiresAt = 110, ttl = 10\<rparr>],
                order = [''k''], capacity = 2, stopCh = Open\<rparr> = 1 \<and>
   Len_p6 (fst (Delete_p6 \<lparr>entries = [''k'' \<mapsto> \<lparr>key = ''k'', val = 1::int, expiresAt = 110, ttl = 10\<rparr>],
                order = [''k''], capacity = 2, stopCh = Open\<rparr> ''k'')) = 0 \<and>
   snd (Delete_a14 \<lparr>entries = [''k'' \<mapsto> \<lparr>key = ''k'', val = 1::int, expiresAt = 110\<rparr>],
                order = [''k''], capacity = 2, stopCh = Open\<rparr> ''k'') = True \<and>
   snd (Get_a14 \<lparr>entries = [''k'' \<mapsto> \<lparr>key = ''k'', val = 1::int, expiresAt = 110\<rparr>],
                order = [''k''], capacity = 2, stopCh = Open\<rparr> ''k'' 200) = None \<and>
   Len_a14 \<lparr>entries = [''k'' \<mapsto> \<lparr>key = ''k'', val = 1::int, expiresAt = 110\<rparr>],
                order = [''k''], capacity = 2, stopCh = Open\<rparr> = 1 \<and>
   Len_a14 (fst (Delete_a14 \<lparr>entries = [''k'' \<mapsto> \<lparr>key = ''k'', val = 1::int, expiresAt = 110\<rparr>],
                order = [''k''], capacity = 2, stopCh = Open\<rparr> ''k'')) = 0"
proof -
  let ?e = "\<lparr>key = ''k'', val = 1::int, expiresAt = 110\<rparr>"
  let ?e6 = "\<lparr>key = ''k'', val = 1::int, expiresAt = 110, ttl = 10\<rparr>"
  let ?s3 = "\<lparr>entries = [''k'' \<mapsto> ?e], order = [''k''], capacity = 2, stopCh = Open, defaultTTL = 0,
                cleanupInterval = 1000000000, stopOnce = False\<rparr>"
  let ?s6 = "\<lparr>entries = [''k'' \<mapsto> ?e6], order = [''k''], capacity = 2, stopCh = Open\<rparr>"
  let ?s14 = "\<lparr>entries = [''k'' \<mapsto> ?e], order = [''k''], capacity = 2, stopCh = Open\<rparr>"
  have h1: "store_inv ?s3" by (simp add: store_inv_def)
  have h2: "entries ?s3 ''k'' = Some ?e" by simp
  have h3: "isExpired_p3 ?e 200" by (simp add: isExpired_p3_def time_defs)
  have h4: "entries ?s6 ''k'' = Some ?e6" by simp
  have h5: "ttl ?e6 > 0" by simp
  have h6: "After 200 (expiresAt ?e6)" by (simp add: After_def)
  have h7: "entries ?s14 ''k'' = Some ?e" by simp
  have h8: "\<not> IsZero (expiresAt ?e)" by (simp add: IsZero_def)
  have h9: "\<not> Before 200 (expiresAt ?e)" by (simp add: Before_def)
  have i6: "store_inv ?s6" by (simp add: store_inv_def)
  have i14: "store_inv ?s14" by (simp add: store_inv_def)
  have l6: "Len_p6 ?s6 = 1" by (simp add: Len_p6_def ListLen_def)
  have l14: "Len_a14 ?s14 = 1" by (simp add: Len_a14_def)
  have empty: "{k'. k' \<noteq> ''k'' \<and> (\<exists>e. entries ?s3 k' = Some e \<and> \<not> isExpired_p3 e 200)} = {}"
    by auto
  from Delete_ignores_expiration [OF h1 h2 h3 h4 h5 h6 h7 h8 h9] i6 i14 l6 l14
  show ?thesis unfolding empty by simp
qed

text \<open>
  The claim as first stated (the expired key is left out of \<^verbatim>\<open>Len\<close>) is false of agent14
  and of the cache with the janitor: with one entry, set at reading 100 with a ttl of 10,
  \<^verbatim>\<open>Get\<close> at reading 200 reports the key not found and \<^verbatim>\<open>Delete\<close> returns true, yet \<^verbatim>\<open>Len\<close> is
  1.
\<close>

theorem Len_counts_expired_key_counterexample:
  "snd (Get_a14 (Set_a14 (New_a14 \<lparr>Capacity = 2, CleanupInterval = 0\<rparr>) ''k'' (1::int) 10 100) ''k'' 200) = None \<and>
   snd (Delete_a14 (Set_a14 (New_a14 \<lparr>Capacity = 2, CleanupInterval = 0\<rparr>) ''k'' (1::int) 10 100) ''k'') = True \<and>
   Len_a14 (Set_a14 (New_a14 \<lparr>Capacity = 2, CleanupInterval = 0\<rparr>) ''k'' (1::int) 10 100) = 1 \<and>
   snd (Get_p6 (Set_p6 \<lparr>entries = Map.empty, order = [], capacity = 2, stopCh = Open\<rparr> ''k'' (1::int) 10 100) ''k'' 200) = None \<and>
   snd (Delete_p6 (Set_p6 \<lparr>entries = Map.empty, order = [], capacity = 2, stopCh = Open\<rparr> ''k'' (1::int) 10 100) ''k'') = True \<and>
   Len_p6 (Set_p6 \<lparr>entries = Map.empty, order = [], capacity = 2, stopCh = Open\<rparr> ''k'' (1::int) 10 100) = 1"
  by (simp add: Len_a14_def Get_a14_def Delete_a14_def Set_a14_def New_a14_def
      Len_p6_def Get_p6_def Delete_p6_def Set_p6_def time_defs list_defs)

section \<open>\<^verbatim>\<open>Peek\<close> and the recency order\<close>

text \<open>
  C8: for a key that is resident and not expired, \<^verbatim>\<open>Peek\<close> returns the value \<^verbatim>\<open>Get\<close> returns
  and leaves the cache as it is, so the recency order, the element at its back (the
  next one a capacity eviction removes) and the result of any further \<^verbatim>\<open>Peek\<close> are the
  same as before; \<^verbatim>\<open>Get\<close> moves the key to the front. This holds of the cache with the
  janitor and of agent11's generic cache.
\<close>

theorem Peek_never_promotes:
  "entries p k = Some ent6 \<Longrightarrow> \<not> (ttl ent6 > 0 \<and> After now (expiresAt ent6)) \<Longrightarrow>
   entries d k = Some ent \<Longrightarrow> \<not> isExpired_a11 ent now \<Longrightarrow>
     Peek_p6 p k now = (p, Some (val ent6)) \<and>
     snd (Get_p6 p k now) = snd (Peek_p6 p k now) \<and>
     order (fst (Get_p6 p k now)) = MoveToFront k (order p) \<and>
     order (fst (Peek_p6 p k now)) = order p \<and>
     Back (order (fst (Peek_p6 p k now))) = Back (order p) \<and>
     Set_p6 (fst (Peek_p6 p k now)) k' v' ttl' now' = Set_p6 p k' v' ttl' now' \<and>
     Peek_p6 (fst (Peek_p6 p k now)) k now = Peek_p6 p k now \<and>
     Peek_a11 d k now = (d, Some (val ent)) \<and>
     snd (Get_a11 d k now) = snd (Peek_a11 d k now) \<and>
     order (fst (Get_a11 d k now)) = MoveToFront k (order d) \<and>
     order (fst (Peek_a11 d k now)) = order d \<and>
     Back (order (fst (Peek_a11 d k now))) = Back (order d) \<and>
     SetWithTTL_a11 (fst (Peek_a11 d k now)) k' v' ttl' now' = SetWithTTL_a11 d k' v' ttl' now' \<and>
     Peek_a11 (fst (Peek_a11 d k now)) k now = Peek_a11 d k now"
  by (simp add: Peek_p6_def Get_p6_def Peek_a11_def Get_a11_def)

theorem Peek_never_promotes_witness:
  "Peek_p6 \<lparr>entries = [''a'' \<mapsto> \<lparr>key = ''a'', val = 1::int, expiresAt = 0, ttl = 0\<rparr>,
                        ''b'' \<mapsto> \<lparr>key = ''b'', val = 2, expiresAt = 0, ttl = 0\<rparr>],
             order = [''b'', ''a''], capacity = 2, stopCh = Open\<rparr> ''a'' 50
     = (\<lparr>entries = [''a'' \<mapsto> \<lparr>key = ''a'', val = 1::int, expiresAt = 0, ttl = 0\<rparr>,
                      ''b'' \<mapsto> \<lparr>key = ''b'', val = 2, expiresAt = 0, ttl = 0\<rparr>],
           order = [''b'', ''a''], capacity = 2, stopCh = Open\<rparr>, Some 1) \<and>
   order (fst (Get_p6 \<lparr>entries = [''a'' \<mapsto> \<lparr>key = ''a'', val = 1::int, expiresAt = 0, ttl = 0\<rparr>,
                        ''b'' \<mapsto> \<lparr>key = ''b'', val = 2, expiresAt = 0, ttl = 0\<rparr>],
             order = [''b'', ''a''], capacity = 2, stopCh = Open\<rparr> ''a'' 50)) = [''a'', ''b''] \<and>
   Peek_a11 \<lparr>entries = [''a'' \<mapsto> \<lparr>key = ''a'', val = 1::int, expiresAt = 0\<rparr>,
                        ''b'' \<mapsto> \<lparr>key = ''b'', val = 2, expiresAt = 0\<rparr>],
             order = [''b'', ''a''], capacity = 2, stopCh = NilChan, defaultTTL = 0,
             cleanupInterval = 0, stopOnce = False\<rparr> ''a'' 50
     = (\<lparr>entries = [''a'' \<mapsto> \<lparr>key = ''a'', val = 1::int, expiresAt = 0\<rparr>,
                      ''b'' \<mapsto> \<lparr>key = ''b'', val = 2, expiresAt = 0\<rparr>],
           order = [''b'', ''a''], capacity = 2, stopCh = NilChan, defaultTTL = 0,
           cleanupInterval = 0, stopOnce = False\<rparr>, Some 1)"
proof -
  let ?p = "\<lparr>entries = [''a'' \<mapsto> \<lparr>key = ''a'', val = 1::int, expiresAt = 0, ttl = 0\<rparr>,
                        ''b'' \<mapsto> \<lparr>key = ''b'', val = 2, expiresAt = 0, ttl = 0\<rparr>],
             order = [''b'', ''a''], capacity = 2, stopCh = Open\<rparr>"
  let ?d = "\<lparr>entries = [''a'' \<mapsto> \<lparr>key = ''a'', val = 1::int, expiresAt = 0\<rparr>,
                        ''b'' \<mapsto> \<lparr>key = ''b'', val = 2, expiresAt = 0\<rparr>],
             order = [''b'', ''a''], capacity = 2, stopCh = NilChan, defaultTTL = 0,
             cleanupInterval = 0, stopOnce = False\<rparr>"
  have h1: "entries ?p ''a'' = Some \<lparr>key = ''a'', val = 1::int, expiresAt = 0, ttl = 0\<rparr>" by simp
  have h2: "\<not> (ttl \<lparr>key = ''a'', val = 1::int, expiresAt = 0, ttl = 0\<rparr> > 0 \<and>
     After 50 (expiresAt \<lparr>key = ''a'', val = 1::int, expiresAt = 0, ttl = 0\<rparr>))" by simp
  have h3: "entries ?d ''a'' = Some \<lparr>key = ''a'', val = 1::int, expiresAt = 0\<rparr>" by simp
  have h4: "\<not> isExpired_a11 \<lparr>key = ''a'', val = 1::int, expiresAt = 0\<rparr> 50"
    by (simp add: isExpired_a11_def IsZero_def)
  from Peek_never_promotes [OF h1 h2 h3 h4, of "''c''" 3 0 60]
  show ?thesis by (simp add: MoveToFront_def)
qed

section \<open>A ttl that is not positive\<close>

lemma card_dom_store_inv: "store_inv c \<Longrightarrow> card (dom (entries c)) = length (order c)"
  by (metis distinct_card store_inv_def)

lemma last_in_dom:
  "store_inv a \<Longrightarrow> order a \<noteq> [] \<Longrightarrow> last (order a) \<in> dom (entries a)"
  by (metis last_in_set store_inv_def)

lemma Set_a14_zero_ttl:
  assumes "bounded_inv a" "ttl' \<le> 0"
  shows "store_inv (Set_a14 a k v ttl' now0) \<and>
         (\<exists>e. entries (Set_a14 a k v ttl' now0) k = Some e \<and> val e = v \<and> expiresAt e = 0)"
proof (cases "entries a k")
  case (Some ent)
  then show ?thesis using assms
    by (simp add: Set_a14_def bounded_inv_def store_inv_touch)
next
  case None
  let ?c' = "a\<lparr>entries := (entries a)(k \<mapsto> \<lparr>key = k, val = v, expiresAt = 0\<rparr>),
                 order := PushFront k (order a)\<rparr>"
  have inv': "store_inv ?c'" using assms None by (simp add: bounded_inv_def store_inv_push)
  have k: "entries ?c' k = Some \<lparr>key = k, val = v, expiresAt = 0\<rparr>" by simp
  show ?thesis
  proof (cases "int (card (dom (entries ?c'))) > capacity ?c'")
    case False
    then have "Set_a14 a k v ttl' now0 = ?c'"
      using None assms(2) by (simp add: Set_a14_def)
    then show ?thesis using inv' by simp
  next
    case True
    then have eq: "Set_a14 a k v ttl' now0 = removeOldestLocked_a14 ?c'"
      using None assms(2) by (simp add: Set_a14_def)
    have "int (length (order ?c')) > capacity a"
      using True card_dom_store_inv [OF inv'] by simp
    then have ne: "order a \<noteq> []" using assms(1) by (auto simp: bounded_inv_def PushFront_def)
    then have bk: "Back (order ?c') = Some (last (order a))"
      by (simp add: Back_def PushFront_def)
    have "last (order a) \<in> dom (entries a)"
      using assms(1) ne by (simp add: bounded_inv_def last_in_dom)
    then have neq: "last (order a) \<noteq> k" using None by auto
    have r: "removeOldestLocked_a14 ?c' = removeElement ?c' (last (order a))"
      using bk by (simp add: removeOldestLocked_a14_def removeElementLocked_a14_def)
    show ?thesis unfolding eq r using neq store_inv_removeElement [OF inv', of "last (order a)"]
      by simp
  qed
qed

lemma Set_a1_entry:
  "entries (Set_a1 b k v ttl' now0) k = None \<or>
   (\<exists>e. entries (Set_a1 b k v ttl' now0) k = Some e \<and> expiresAt e = now0 + ttl')"
  by (auto simp: Set_a1_def Let_def evictLRU_a1_def Add_def split: option.splits)

lemma Add_a3_entry:
  "entries (Add_a3 b k v ttl' now0) k = None \<or>
   (\<exists>e. entries (Add_a3 b k v ttl' now0) k = Some e \<and> expiresAt e = now0 + ttl')"
  by (auto simp: Add_a3_def Let_def removeOldest_a3_def removeElement_a3_def Add_def split: option.splits)

text \<open>
  C4, as the code has it: in agent14 a \<^verbatim>\<open>Set\<close> with a ttl of zero or less (on a cache
  whose map and list agree and whose capacity is positive) stores an entry with no expiry:
  \<^verbatim>\<open>Get\<close> of the key at any clock reading returns the value and \<^verbatim>\<open>removeExpired\<close> at any
  reading keeps the entry. In agent1 and agent3 the expiry is always the reading plus the
  ttl, so after \<^verbatim>\<open>Set\<close> (\<^verbatim>\<open>Add\<close>) with a ttl of zero or less \<^verbatim>\<open>Get\<close> at any later reading
  reports the key not found.
\<close>

theorem nonpositive_ttl:
  "bounded_inv a \<Longrightarrow> ttl' \<le> 0 \<Longrightarrow> now0 < now \<Longrightarrow>
     snd (Get_a14 (Set_a14 a k v ttl' now0) k now') = Some v \<and>
     entries (removeExpired_a14 (Set_a14 a k v ttl' now0) now') k
       = entries (Set_a14 a k v ttl' now0) k \<and>
     entries (Set_a14 a k v ttl' now0) k \<noteq> None \<and>
     snd (Get_a1 (Set_a1 b k v ttl' now0) k now) = None \<and>
     snd (Get_a3 (Add_a3 d k v ttl' now0) k now) = None"
proof -
  assume a: "bounded_inv a" and t: "ttl' \<le> 0" and n: "now0 < now"
  from Set_a14_zero_ttl [OF a t, of k v now0] obtain e where
    inv: "store_inv (Set_a14 a k v ttl' now0)" and
    e: "entries (Set_a14 a k v ttl' now0) k = Some e" "val e = v" "expiresAt e = 0"
    by blast
  have g: "snd (Get_a14 (Set_a14 a k v ttl' now0) k now') = Some v"
    using e by (simp add: Get_a14_def IsZero_def)
  have s: "entries (removeExpired_a14 (Set_a14 a k v ttl' now0) now') k
       = entries (Set_a14 a k v ttl' now0) k"
    using e by (simp add: removeExpired_a14_def sweepBack_entries [OF inv] IsZero_def)
  have g1: "snd (Get_a1 (Set_a1 b k v ttl' now0) k now) = None"
    using Set_a1_entry [of b k v ttl' now0] t n
    by (auto simp: Get_a1_def After_def split: option.splits)
  have g3: "snd (Get_a3 (Add_a3 d k v ttl' now0) k now) = None"
    using Add_a3_entry [of d k v ttl' now0] t n
    by (auto simp: Get_a3_def After_def split: option.splits)
  from g s e(1) g1 g3 show ?thesis by simp
qed

theorem nonpositive_ttl_witness:
  "snd (Get_a14 (Set_a14 (New_a14 \<lparr>Capacity = 2, CleanupInterval = 0\<rparr>) ''k'' (1::int) 0 100) ''k'' 5000) = Some 1 \<and>
   entries (removeExpired_a14 (Set_a14 (New_a14 \<lparr>Capacity = 2, CleanupInterval = 0\<rparr>) ''k'' (1::int) 0 100) 5000) ''k''
     = Some \<lparr>key = ''k'', val = 1, expiresAt = 0\<rparr> \<and>
   snd (Get_a1 (Set_a1 (New_a1 2) ''k'' (1::int) 0 100) ''k'' 101) = None \<and>
   snd (Get_a3 (Add_a3 (New_a3 2) ''k'' (1::int) 0 100) ''k'' 101) = None"
proof -
  have h1: "bounded_inv (New_a14 \<lparr>Capacity = 2, CleanupInterval = 0\<rparr> :: (string, (string, int) entry) stoppable)"
    by (simp add: bounded_inv_def store_inv_def New_a14_def ListLen_def)
  have h2: "(0::int) \<le> 0" by simp
  have h3: "(100::int) < 101" by simp
  have e: "entries (Set_a14 (New_a14 \<lparr>Capacity = 2, CleanupInterval = 0\<rparr>) ''k'' (1::int) 0 100) ''k''
     = Some \<lparr>key = ''k'', val = 1, expiresAt = 0\<rparr>"
    by (simp add: Set_a14_def New_a14_def list_defs)
  from nonpositive_ttl [OF h1 h2 h3, of "''k''" 1 5000 "New_a1 2" "New_a3 2"] e
  show ?thesis by simp
qed

text \<open>
  The claim as first stated is false of agent1 and of agent3: an entry set at reading 100
  with a ttl of 0 is stored with expiry 100, and \<^verbatim>\<open>Get\<close> at reading 101 reports the key not
  found.
\<close>

theorem zero_ttl_expires_counterexample:
  "entries (Set_a1 (New_a1 2) ''k'' (1::int) 0 100) ''k'' = Some \<lparr>key = ''k'', val = 1, expiresAt = 100\<rparr> \<and>
   snd (Get_a1 (Set_a1 (New_a1 2) ''k'' (1::int) 0 100) ''k'' 101) = None \<and>
   entries (Add_a3 (New_a3 2) ''k'' (1::int) 0 100) ''k'' = Some \<lparr>key = ''k'', val = 1, expiresAt = 100\<rparr> \<and>
   snd (Get_a3 (Add_a3 (New_a3 2) ''k'' (1::int) 0 100) ''k'' 101) = None"
  by (simp add: Set_a1_def Get_a1_def New_a1_def Add_a3_def Get_a3_def New_a3_def time_defs list_defs)

section \<open>The capacity bound\<close>

lemma bounded_inv_touch:
  "bounded_inv c \<Longrightarrow> entries c k = Some e \<Longrightarrow>
   bounded_inv (c\<lparr>entries := (entries c)(k \<mapsto> e'), order := MoveToFront k (order c)\<rparr>)"
  by (simp add: bounded_inv_def store_inv_touch ListLen_def)

lemma bounded_inv_MoveToFront:
  "bounded_inv c \<Longrightarrow> bounded_inv (c\<lparr>order := MoveToFront k (order c)\<rparr>)"
  by (simp add: bounded_inv_def store_inv_MoveToFront ListLen_def)

text \<open>agent11: with a positive capacity the eviction loop ends, below the capacity.\<close>

lemma evictLoop_a11_ends:
  "store_inv c \<Longrightarrow> 0 < capacity c \<Longrightarrow>
   \<exists>c'. evictLoop_a11 c = Some c' \<and> store_inv c' \<and> ListLen (order c') < capacity c' \<and>
        capacity c' = capacity c \<and> defaultTTL c' = defaultTTL c \<and> entries c' \<subseteq>\<^sub>m entries c"
proof (induction "length (order c)" arbitrary: c rule: less_induct)
  case less
  show ?case
  proof (cases "ListLen (order c) \<ge> capacity c")
    case False
    then have "evictLoop_a11 c = Some c" by (subst evictLoop_a11.simps) simp
    with False less.prems show ?thesis by simp
  next
    case True
    then have ne: "order c \<noteq> []" using less.prems by (auto simp: ListLen_def)
    let ?d = "removeOldestLocked_a11 c"
    have d: "?d = removeElement c (last (order c))"
      using ne by (simp add: removeOldestLocked_a11_def removeElementLocked_a11_def Back_def)
    have "length (order ?d) < length (order c)"
      unfolding d using ne by (simp add: length_remove1)
    moreover have "store_inv ?d" unfolding d using less.prems by (simp add: store_inv_removeElement)
    moreover have "0 < capacity ?d" unfolding d using less.prems by simp
    ultimately obtain c' where c': "evictLoop_a11 ?d = Some c'" "store_inv c'"
      "ListLen (order c') < capacity c'" "capacity c' = capacity ?d" "defaultTTL c' = defaultTTL ?d"
      "entries c' \<subseteq>\<^sub>m entries ?d"
      using less.hyps [of ?d] by blast
    have "evictLoop_a11 c = evictLoop_a11 ?d"
      using True by (subst evictLoop_a11.simps) simp
    moreover have "entries ?d \<subseteq>\<^sub>m entries c" unfolding d by (auto simp: map_le_def)
    ultimately show ?thesis using c' map_le_trans [of "entries c'" "entries ?d" "entries c"]
      by (simp add: d)
  qed
qed

lemma SetWithTTL_a11_inv:
  assumes "bounded_inv c"
  shows "\<exists>c'. SetWithTTL_a11 c k v ttl' now = Some c' \<and> bounded_inv c' \<and> capacity c' = capacity c"
proof -
  let ?c1 = "purgeExpiredLocked_a11 c now"
  have b1: "bounded_inv ?c1" and cap1: "capacity ?c1 = capacity c"
    using assms by (simp_all add: purgeExpiredLocked_a11_def bounded_inv_sweepBack)
  show ?thesis
  proof (cases "entries ?c1 k")
    case (Some ent)
    then show ?thesis using b1 cap1
      by (simp add: SetWithTTL_a11_def Let_def bounded_inv_touch)
  next
    case None
    from b1 have "store_inv ?c1" "0 < capacity ?c1" by (simp_all add: bounded_inv_def)
    from evictLoop_a11_ends [OF this] obtain c2 where c2: "evictLoop_a11 ?c1 = Some c2"
      "store_inv c2" "ListLen (order c2) < capacity c2" "capacity c2 = capacity ?c1"
      "entries c2 \<subseteq>\<^sub>m entries ?c1"
      by blast
    have "entries c2 k = None"
      using c2(5) None by (metis domIff map_le_def)
    then have "store_inv (c2\<lparr>entries := (entries c2)(k \<mapsto> \<lparr>key = k, val = v, expiresAt = expiryTime_a11 ttl' now\<rparr>),
                           order := PushFront k (order c2)\<rparr>)"
      using c2(2) by (rule store_inv_push [rotated])
    then show ?thesis using None c2 cap1 b1
      by (simp add: SetWithTTL_a11_def Let_def bounded_inv_def ListLen_def PushFront_def)
  qed
qed

lemma step_a11_inv:
  assumes "bounded_inv c"
  shows "\<exists>c'. step_a11 c op = Some c' \<and> bounded_inv c' \<and> capacity c' = capacity c"
proof (cases op)
  case (A11Set k v now)
  then show ?thesis using SetWithTTL_a11_inv [OF assms, of k v "defaultTTL c" now]
    by (simp add: Set_a11_def)
next
  case (A11SetWithTTL k v ttl' now)
  then show ?thesis using SetWithTTL_a11_inv [OF assms, of k v ttl' now] by simp
next
  case (A11Get k now)
  then show ?thesis using assms
    by (auto simp: Get_a11_def removeElementLocked_a11_def bounded_inv_removeElement
        bounded_inv_MoveToFront split: option.splits)
next
  case (A11Peek k now)
  then show ?thesis using assms
    by (auto simp: Peek_a11_def removeElementLocked_a11_def bounded_inv_removeElement
        split: option.splits)
next
  case (A11Delete k)
  then show ?thesis using assms
    by (auto simp: Delete_a11_def removeElementLocked_a11_def bounded_inv_removeElement
        split: option.splits)
next
  case (A11Len now)
  then show ?thesis using assms
    by (simp add: Len_a11_def Let_def purgeExpiredLocked_a11_def bounded_inv_sweepBack)
next
  case (A11Cleanup now)
  then show ?thesis using assms
    by (simp add: Cleanup_a11_def purgeExpiredLocked_a11_def bounded_inv_sweepBack)
qed

lemma run_a11_inv:
  "bounded_inv c \<Longrightarrow> \<exists>c'. run_a11 c ops = Some c' \<and> bounded_inv c' \<and> capacity c' = capacity c"
proof (induction ops arbitrary: c)
  case Nil
  then show ?case by simp
next
  case (Cons op ops)
  from step_a11_inv [OF Cons.prems, of op] obtain c1 where
    s: "step_a11 c op = Some c1" "bounded_inv c1" "capacity c1 = capacity c" by blast
  from Cons.IH [OF s(2)] s show ?case by auto
qed

lemma New_a11_inv: "New_a11 cap opts = Inr c \<Longrightarrow> bounded_inv c \<and> capacity c = cap"
  by (auto simp: New_a11_def bounded_inv_def store_inv_def ListLen_def Let_def split: if_splits)

text \<open>agent3: one eviction after the insertion is enough, the list was within the bound.\<close>

lemma Add_a3_inv:
  assumes "bounded_inv c"
  shows "bounded_inv (Add_a3 c k v ttl' now) \<and> capacity (Add_a3 c k v ttl' now) = capacity c"
proof (cases "entries c k")
  case (Some ee)
  then show ?thesis using assms
    by (auto simp: Add_a3_def bounded_inv_def store_inv_def ListLen_def)
next
  case None
  let ?c' = "c\<lparr>entries := (entries c)(k \<mapsto> \<lparr>key = k, val = v, expiresAt = Add now ttl'\<rparr>),
                 order := PushFront k (order c)\<rparr>"
  have inv': "store_inv ?c'" using assms None by (simp add: bounded_inv_def store_inv_push)
  show ?thesis
  proof (cases "ListLen (order ?c') > capacity ?c'")
    case False
    then show ?thesis using None assms inv'
      by (simp add: Add_a3_def Let_def bounded_inv_def)
  next
    case True
    have "Back (order ?c') = Some (last (k # order c))"
      by (simp add: Back_def PushFront_def)
    then have eq: "Add_a3 c k v ttl' now = removeElement ?c' (last (k # order c))"
      using None True assms
      by (simp add: Add_a3_def Let_def removeOldest_a3_def removeElement_a3_def bounded_inv_def)
    have "length (order (removeElement ?c' (last (k # order c)))) = length (order c)"
      by (simp add: length_remove1 PushFront_def)
    then show ?thesis unfolding eq using assms store_inv_removeElement [OF inv']
      by (simp add: bounded_inv_def ListLen_def)
  qed
qed

lemma step_a3_inv:
  assumes "bounded_inv c"
  shows "bounded_inv (step_a3 c op) \<and> capacity (step_a3 c op) = capacity c"
proof (cases op)
  case (A3Add k v ttl' now)
  then show ?thesis using Add_a3_inv [OF assms] by simp
next
  case (A3Get k now)
  then show ?thesis using assms
    by (auto simp: Get_a3_def removeElement_a3_def bounded_inv_removeElement
        bounded_inv_MoveToFront split: option.splits)
next
  case (A3Remove k)
  then show ?thesis using assms
    by (auto simp: Remove_a3_def removeElement_a3_def bounded_inv_removeElement split: option.splits)
next
  case A3Len
  then show ?thesis using assms by simp
qed

lemma run_a3_inv:
  "bounded_inv c \<Longrightarrow> bounded_inv (run_a3 c ops) \<and> capacity (run_a3 c ops) = capacity c"
proof (induction ops arbitrary: c)
  case Nil
  then show ?case by simp
next
  case (Cons op ops)
  from step_a3_inv [OF Cons.prems, of op] Cons.IH [of "step_a3 c op"] show ?case by simp
qed

lemma bounded_inv_size:
  "bounded_inv c \<Longrightarrow> ListLen (order c) \<le> capacity c \<and> int (card (dom (entries c))) \<le> capacity c"
  by (simp add: bounded_inv_def card_dom_store_inv ListLen_def)

text \<open>
  C2: a cache constructed with a positive capacity never holds more entries than its
  capacity, after any sequence of operations (so after any \<^verbatim>\<open>Set\<close> that inserts a new
  key): the list and the map have at most \<open>cap\<close> keys, no operation panics and every
  \<^verbatim>\<open>Set\<close> returns. This holds of the cache with the injectable clock, of agent11's generic
  cache (their \<^verbatim>\<open>New\<close> accepts only a positive capacity) and of agent3's cache when its
  \<^verbatim>\<open>maxEntries\<close> is positive.
\<close>

theorem capacity_never_exceeded:
  "(New_p3 cap opts = Inr (c0 :: ('k, 'v) Cache_p3) \<longrightarrow>
      (\<exists>c. run_p3 c0 ops = Inr c \<and> capacity c = cap \<and> ListLen (order c) \<le> cap \<and>
           int (card (dom (entries c))) \<le> cap)) \<and>
   (New_a11 cap opts11 = Inr (d0 :: ('k, 'v) Cache_a11) \<longrightarrow>
      (\<exists>d. run_a11 d0 ops11 = Some d \<and> capacity d = cap \<and> ListLen (order d) \<le> cap \<and>
           int (card (dom (entries d))) \<le> cap)) \<and>
   (0 < cap \<longrightarrow>
      capacity (run_a3 (New_a3 cap) (ops3 :: ('k, 'v) op_a3 list)) = cap \<and>
      ListLen (order (run_a3 (New_a3 cap) ops3)) \<le> cap \<and>
      int (card (dom (entries (run_a3 (New_a3 cap) ops3)))) \<le> cap)"
proof (intro conjI impI)
  assume n: "New_p3 cap opts = Inr c0"
  from New_p3_inv [OF n] have i: "inv_p3 c0" and c: "capacity c0 = cap" by simp_all
  from run_p3_inv [OF i, of ops] obtain c' where
    r: "run_p3 c0 ops = Inr c'" "inv_p3 c'" "capacity c' = capacity c0" by blast
  from r(2) have "bounded_inv c'" by (simp add: inv_p3_def)
  from bounded_inv_size [OF this] r c
  show "\<exists>c. run_p3 c0 ops = Inr c \<and> capacity c = cap \<and> ListLen (order c) \<le> cap \<and>
           int (card (dom (entries c))) \<le> cap"
    by simp
next
  assume n: "New_a11 cap opts11 = Inr d0"
  from New_a11_inv [OF n] have i: "bounded_inv d0" and c: "capacity d0 = cap" by simp_all
  from run_a11_inv [OF i, of ops11] obtain d' where
    r: "run_a11 d0 ops11 = Some d'" "bounded_inv d'" "capacity d' = capacity d0" by blast
  from bounded_inv_size [OF r(2)] r c
  show "\<exists>d. run_a11 d0 ops11 = Some d \<and> capacity d = cap \<and> ListLen (order d) \<le> cap \<and>
           int (card (dom (entries d))) \<le> cap"
    by simp
next
  assume pos: "0 < cap"
  let ?e = "New_a3 cap :: ('k, ('k, 'v) entry) bounded"
  have i: "bounded_inv ?e"
    using pos by (simp add: New_a3_def bounded_inv_def store_inv_def ListLen_def)
  have c: "capacity ?e = cap" by (simp add: New_a3_def)
  from run_a3_inv [OF i, of ops3] bounded_inv_size [of "run_a3 ?e ops3"] c
  show "capacity (run_a3 (New_a3 cap) ops3) = cap"
    and "ListLen (order (run_a3 (New_a3 cap) ops3)) \<le> cap"
    and "int (card (dom (entries (run_a3 (New_a3 cap) ops3)))) \<le> cap"
    by simp_all
qed

theorem capacity_never_exceeded_witness:
  "New_p3 2 [] = Inr (\<lparr>entries = Map.empty, order = [], capacity = 2, stopCh = Open, defaultTTL = 0,
       cleanupInterval = 1000000000, stopOnce = False\<rparr> :: (string, int) Cache_p3) \<and>
   (\<exists>c. run_p3 (\<lparr>entries = Map.empty, order = [], capacity = 2, stopCh = Open, defaultTTL = 0,
           cleanupInterval = 1000000000, stopOnce = False\<rparr> :: (string, int) Cache_p3)
          [OpSet ''a'' 1 10, OpSet ''b'' 2 20, OpSet ''c'' 3 30] = Inr c \<and>
        capacity c = 2 \<and> ListLen (order c) \<le> 2 \<and> int (card (dom (entries c))) \<le> 2) \<and>
   New_a11 2 [] = Inr (\<lparr>entries = Map.empty, order = [], capacity = 2, stopCh = NilChan, defaultTTL = 0,
       cleanupInterval = 0, stopOnce = False\<rparr> :: (string, int) Cache_a11) \<and>
   (\<exists>d. run_a11 (\<lparr>entries = Map.empty, order = [], capacity = 2, stopCh = NilChan, defaultTTL = 0,
           cleanupInterval = 0, stopOnce = False\<rparr> :: (string, int) Cache_a11)
          [A11Set ''a'' 1 10, A11Set ''b'' 2 20, A11Set ''c'' 3 30] = Some d \<and>
        capacity d = 2 \<and> ListLen (order d) \<le> 2 \<and> int (card (dom (entries d))) \<le> 2) \<and>
   (0::int) < 2 \<and>
   ListLen (order (run_a3 (New_a3 2 :: (string, (string, int) entry) bounded)
     [A3Add ''a'' 1 5 10, A3Add ''b'' 2 5 20, A3Add ''c'' 3 5 30])) \<le> 2 \<and>
   order (run_a3 (New_a3 2 :: (string, (string, int) entry) bounded)
     [A3Add ''a'' 1 5 10, A3Add ''b'' 2 5 20, A3Add ''c'' 3 5 30]) = [''c'', ''b'']"
proof -
  let ?p = "\<lparr>entries = Map.empty, order = [], capacity = 2, stopCh = Open, defaultTTL = 0,
       cleanupInterval = 1000000000, stopOnce = False\<rparr> :: (string, int) Cache_p3"
  let ?d = "\<lparr>entries = Map.empty, order = [], capacity = 2, stopCh = NilChan, defaultTTL = 0,
       cleanupInterval = 0, stopOnce = False\<rparr> :: (string, int) Cache_a11"
  have h1: "New_p3 2 [] = Inr ?p" by (simp add: New_p3_def defaultCleanupInterval_def)
  have h2: "New_a11 2 [] = Inr ?d" by (simp add: New_a11_def)
  have h3: "(0::int) < 2" by simp
  have ev: "order (run_a3 (New_a3 2 :: (string, (string, int) entry) bounded)
     [A3Add ''a'' 1 5 10, A3Add ''b'' 2 5 20, A3Add ''c'' 3 5 30]) = [''c'', ''b'']"
    by (simp add: Add_a3_def New_a3_def removeOldest_a3_def removeElement_a3_def time_defs list_defs)
  from capacity_never_exceeded [of 2 "[]" ?p "[OpSet ''a'' 1 10, OpSet ''b'' 2 20, OpSet ''c'' 3 30]"
      "[]" ?d "[A11Set ''a'' 1 10, A11Set ''b'' 2 20, A11Set ''c'' 3 30]"
      "[A3Add ''a'' 1 5 10, A3Add ''b'' 2 5 20, A3Add ''c'' 3 5 30]"]
    h1 h2 h3 ev
  show ?thesis by blast
qed

section \<open>The eviction order\<close>

lemma run_p3_snoc:
  "run_p3 c (ops @ [op]) = (case run_p3 c ops of Inl p \<Rightarrow> Inl p | Inr c' \<Rightarrow> step_p3 c' op)"
  by (induction ops arbitrary: c) (auto split: sum.splits)

lemma lastTouch_p3_snoc:
  "lastTouch_p3 c0 (ops @ [op]) k =
     (case run_p3 c0 ops of
        Inr c \<Rightarrow> if touches_p3 c op = Some k then Suc (length ops) else lastTouch_p3 c0 ops k
      | Inl p \<Rightarrow> lastTouch_p3 c0 ops k)"
  by (simp add: lastTouch_p3_def split: sum.splits)

lemma recent_filter: "recent lt n xs \<Longrightarrow> recent lt n (filter P xs)"
  by (auto simp: recent_def sorted_wrt_filter)

lemma recent_take: "recent lt n xs \<Longrightarrow> recent lt n (take m xs)"
  by (auto simp: recent_def dest: in_set_takeD)

lemma recent_remove1: "distinct xs \<Longrightarrow> recent lt n xs \<Longrightarrow> recent lt n (remove1 k xs)"
  by (simp add: distinct_remove1_removeAll removeAll_filter_not_eq recent_filter)

lemma recent_Suc: "recent lt n xs \<Longrightarrow> recent lt (Suc n) xs"
  by (auto simp: recent_def)

lemma recent_touch:
  assumes "recent lt n ys" "k \<notin> set ys"
  shows "recent (\<lambda>x. if x = k then Suc n else lt x) (Suc n) (k # ys)"
proof -
  have "sorted_wrt (\<lambda>a b. (if b = k then Suc n else lt b) < (if a = k then Suc n else lt a)) ys"
    using assms by (auto simp: recent_def intro: sorted_wrt_mono_rel [where P = "\<lambda>a b. lt b < lt a"])
  then show ?thesis using assms by (auto simp: recent_def)
qed

lemma recent_last_least:
  assumes "recent lt n xs" "x \<in> set xs" "x \<noteq> last xs"
  shows "lt (last xs) < lt x"
proof -
  from assms(2) have ne: "xs \<noteq> []" by auto
  then have xs: "xs = butlast xs @ [last xs]" by simp
  with assms(2,3) have "x \<in> set (butlast xs)"
    by (metis Un_iff empty_iff insert_iff list.set(1) list.set(2) set_append)
  moreover have "sorted_wrt (\<lambda>a b. lt b < lt a) (butlast xs @ [last xs])"
    using assms(1) xs by (simp add: recent_def)
  ultimately show ?thesis by (simp add: sorted_wrt_append)
qed

text \<open>What each operation does to the recency list.\<close>

lemma SetWithTTL_p3_order:
  assumes "inv_p3 c" "SetWithTTL_p3 c k v ttl' now = Inr c'"
  shows "order c' = (if entries c k = None then take (nat (capacity c)) (k # order c)
                     else k # remove1 k (order c))"
proof (cases "entries c k")
  case None
  then have "k \<notin> set (order c)" using assms(1) by (auto simp: inv_p3_def bounded_inv_def store_inv_def)
  then show ?thesis using assms None
    by (auto simp: SetWithTTL_p3_def Let_def enforce_order inv_p3_def bounded_inv_def store_inv_def
        PushFront_def split: if_splits)
next
  case (Some ent)
  then have "k \<in> set (order c)" using assms(1) by (auto simp: inv_p3_def bounded_inv_def store_inv_def)
  then show ?thesis using assms Some
    by (auto simp: SetWithTTL_p3_def Let_def MoveToFront_def split: if_splits)
qed

lemma Get_p3_order:
  assumes "store_inv c"
  shows "order (fst (Get_p3 c k now)) =
     (case snd (Get_p3 c k now) of Some v \<Rightarrow> k # remove1 k (order c) | None \<Rightarrow> remove1 k (order c))"
proof (cases "entries c k")
  case None
  then have "k \<notin> set (order c)" using assms by (auto simp: store_inv_def)
  then show ?thesis using None by (simp add: Get_p3_def remove1_idem)
next
  case (Some ent)
  then have "k \<in> set (order c)" using assms by (auto simp: store_inv_def)
  then show ?thesis using Some by (simp add: Get_p3_def MoveToFront_def)
qed

lemma Delete_p3_order:
  assumes "store_inv c"
  shows "order (fst (Delete_p3 c k)) = remove1 k (order c)"
proof (cases "entries c k")
  case None
  then have "k \<notin> set (order c)" using assms by (auto simp: store_inv_def)
  then show ?thesis using None by (simp add: Delete_p3_def remove1_idem)
next
  case (Some ent)
  then show ?thesis by (simp add: Delete_p3_def)
qed

lemma Close_p3_order: "Close_p3 c = Inr c' \<Longrightarrow> order c' = order c"
  by (auto simp: Close_p3_def split: if_splits sum.splits)

lemma recent_touch_front:
  assumes "distinct xs" "recent lt n xs"
  shows "recent (\<lambda>x. if Some k = Some x then Suc n else lt x) (Suc n) (k # remove1 k xs)"
proof -
  have "recent lt n (remove1 k xs)" using assms by (rule recent_remove1)
  moreover have "k \<notin> set (remove1 k xs)" using assms(1) by simp
  ultimately have "recent (\<lambda>x. if x = k then Suc n else lt x) (Suc n) (k # remove1 k xs)"
    by (rule recent_touch)
  then show ?thesis by (simp add: eq_commute)
qed

lemma recent_touch_new:
  assumes "k \<notin> set xs" "recent lt n xs" "0 < cap"
  shows "recent (\<lambda>x. if Some k = Some x then Suc n else lt x) (Suc n) (take (nat cap) (k # xs))"
proof -
  have t: "take (nat cap) (k # xs) = k # take (nat cap - 1) xs"
    using assms(3) by (simp add: take_Cons')
  have "recent lt n (take (nat cap - 1) xs)" using assms(2) by (rule recent_take)
  moreover have "k \<notin> set (take (nat cap - 1) xs)" using assms(1) by (auto dest: in_set_takeD)
  ultimately have "recent (\<lambda>x. if x = k then Suc n else lt x) (Suc n) (k # take (nat cap - 1) xs)"
    by (rule recent_touch)
  then show ?thesis unfolding t by (simp add: eq_commute)
qed

lemma recent_SetWithTTL_p3:
  assumes "inv_p3 c" "recent lt n (order c)" "SetWithTTL_p3 c k v ttl' now = Inr c'"
  shows "recent (\<lambda>x. if Some k = Some x then Suc n else lt x) (Suc n) (order c')"
proof -
  have inv: "store_inv c" and pos: "0 < capacity c"
    using assms(1) by (simp_all add: inv_p3_def bounded_inv_def)
  show ?thesis
  proof (cases "entries c k")
    case None
    then have "k \<notin> set (order c)" using inv by (auto simp: store_inv_def)
    from recent_touch_new [OF this assms(2) pos] SetWithTTL_p3_order [OF assms(1,3)] None
    show ?thesis by simp
  next
    case (Some ent)
    have "distinct (order c)" using inv by (simp add: store_inv_def)
    from recent_touch_front [OF this assms(2)] SetWithTTL_p3_order [OF assms(1,3)] Some
    show ?thesis by simp
  qed
qed

lemma recency_step_p3:
  assumes "inv_p3 c" "recent lt n (order c)" "step_p3 c op = Inr c'"
  shows "recent (\<lambda>x. if touches_p3 c op = Some x then Suc n else lt x) (Suc n) (order c')"
proof -
  have inv: "store_inv c" using assms(1) by (simp add: inv_p3_def bounded_inv_def)
  then have dist: "distinct (order c)" by (simp add: store_inv_def)
  have keep: "recent lt (Suc n) (order c)" using assms(2) by (rule recent_Suc)
  have rem: "\<And>k. recent lt (Suc n) (remove1 k (order c))"
    using dist keep by (rule recent_remove1)
  show ?thesis
  proof (cases op)
    case (OpSet k v now)
    show ?thesis
    proof (cases "SetWithTTL_p3 c k v 0 now")
      case (Inl e)
      then show ?thesis using OpSet assms(3) keep by (auto simp: Set_p3_def)
    next
      case (Inr d)
      with OpSet assms(3) have "d = c'" by (simp add: Set_p3_def)
      with recent_SetWithTTL_p3 [OF assms(1,2) Inr] Inr OpSet show ?thesis
        by (simp add: Set_p3_def)
    qed
  next
    case (OpSetWithTTL k v ttl' now)
    show ?thesis
    proof (cases "SetWithTTL_p3 c k v ttl' now")
      case (Inl e)
      then show ?thesis using OpSetWithTTL assms(3) keep by auto
    next
      case (Inr d)
      with OpSetWithTTL assms(3) have "d = c'" by simp
      with recent_SetWithTTL_p3 [OF assms(1,2) Inr] Inr OpSetWithTTL show ?thesis
        by simp
    qed
  next
    case (OpGet k now)
    then have c': "c' = fst (Get_p3 c k now)" using assms(3) by simp
    show ?thesis
    proof (cases "snd (Get_p3 c k now)")
      case None
      then show ?thesis using OpGet c' Get_p3_order [OF inv, of k now] rem by simp
    next
      case (Some v)
      then show ?thesis
        using OpGet c' Get_p3_order [OF inv, of k now] recent_touch_front [OF dist assms(2), of k]
        by simp
    qed
  next
    case (OpDelete k)
    then show ?thesis using assms(3) Delete_p3_order [OF inv, of k] rem by auto
  next
    case (OpLen now)
    then have "order c' = filter (\<lambda>k. case entries c k of Some e \<Rightarrow> \<not> isExpired_p3 e now | None \<Rightarrow> False) (order c)"
      using assms(3) inv by (auto simp: Len_p3_def Let_def removeExpiredLocked_p3_def sweepBack_order)
    then show ?thesis using OpLen recent_filter [OF keep] by simp
  next
    case (OpSweep now)
    then have "order c' = filter (\<lambda>k. case entries c k of Some e \<Rightarrow> \<not> isExpired_p3 e now | None \<Rightarrow> False) (order c)"
      using assms(3) inv by (auto simp: removeExpiredLocked_p3_def sweepBack_order)
    then show ?thesis using OpSweep recent_filter [OF keep] by simp
  next
    case OpClose
    then show ?thesis using assms(3) Close_p3_order [of c c'] keep by simp
  qed
qed

lemma recency_p3:
  assumes "inv_p3 c0" "order c0 = []"
  shows "\<exists>c. run_p3 c0 ops = Inr c \<and> inv_p3 c \<and> capacity c = capacity c0 \<and>
             recent (lastTouch_p3 c0 ops) (length ops) (order c)"
proof (induction ops rule: rev_induct)
  case Nil
  then show ?case using assms by (simp add: recent_def)
next
  case (snoc op ops)
  then obtain c where c: "run_p3 c0 ops = Inr c" "inv_p3 c" "capacity c = capacity c0"
    "recent (lastTouch_p3 c0 ops) (length ops) (order c)" by blast
  from step_p3_inv [OF c(2), of op] obtain c' where
    c': "step_p3 c op = Inr c'" "inv_p3 c'" "capacity c' = capacity c" by blast
  have lt: "lastTouch_p3 c0 (ops @ [op]) =
      (\<lambda>x. if touches_p3 c op = Some x then Suc (length ops) else lastTouch_p3 c0 ops x)"
    by (rule ext) (simp add: lastTouch_p3_snoc c(1))
  from recency_step_p3 [OF c(2) c(4) c'(1)]
  have "recent (lastTouch_p3 c0 (ops @ [op])) (length (ops @ [op])) (order c')"
    unfolding lt by simp
  then show ?case using c c' by (simp add: run_p3_snoc)
qed

lemma New_p3_order: "New_p3 cap opts = Inr c \<Longrightarrow> order c = []"
  by (auto simp: New_p3_def Let_def split: if_splits)

lemma last_notin_butlast: "distinct xs \<Longrightarrow> xs \<noteq> [] \<Longrightarrow> last xs \<notin> set (butlast xs)"
  by (metis append_butlast_last_id disjoint_iff distinct_append list.set_intros(1))

lemma set_butlast_last: "xs \<noteq> [] \<Longrightarrow> set xs = insert (last xs) (set (butlast xs))"
  by (metis Un_insert_right append_butlast_last_id list.set(2) set_append sup_bot.right_neutral list.set(1))

lemma evict_at_capacity:
  assumes inv: "inv_p3 c" and new: "entries c k = None" and ttl: "0 \<le> ttl'"
    and full: "ListLen (order c) = capacity c"
  shows "\<exists>c'. SetWithTTL_p3 c k v ttl' now = Inr c' \<and> Back (order c) = Some (last (order c)) \<and>
           entries c (last (order c)) \<noteq> None \<and>
           order c' = k # butlast (order c) \<and> entries c' (last (order c)) = None \<and>
           entries c' k \<noteq> None \<and>
           (\<forall>x. x \<noteq> last (order c) \<longrightarrow> x \<noteq> k \<longrightarrow> entries c' x = entries c x)"
proof -
  have sinv: "store_inv c" and pos: "0 < capacity c"
    using inv by (simp_all add: inv_p3_def bounded_inv_def)
  have dist: "distinct (order c)" and dom: "set (order c) = dom (entries c)"
    using sinv by (simp_all add: store_inv_def)
  have ne: "order c \<noteq> []" using full pos by (auto simp: ListLen_def)
  let ?victim = "last (order c)"
  let ?exp = "if (if ttl' = 0 then defaultTTL c else ttl') > 0
              then Add now (if ttl' = 0 then defaultTTL c else ttl') else 0"
  let ?d = "c\<lparr>entries := (entries c)(k \<mapsto> \<lparr>key = k, val = v, expiresAt = ?exp\<rparr>),
               order := PushFront k (order c)\<rparr>"
  have set': "SetWithTTL_p3 c k v ttl' now = Inr (enforceCapacityLocked_p3 ?d)"
    using new ttl by (simp add: SetWithTTL_p3_def Let_def)
  have dinv: "store_inv ?d" using sinv new by (rule store_inv_push)
  have len: "nat (capacity c) = length (order c)" using full by (simp add: ListLen_def)
  have ord: "order (enforceCapacityLocked_p3 ?d) = k # butlast (order c)"
    using dinv ne by (simp add: enforce_order store_inv_def PushFront_def len butlast_conv_take take_Cons')
  have ent: "\<And>x. entries (enforceCapacityLocked_p3 ?d) x =
      (if x \<in> set (k # butlast (order c)) then entries ?d x else None)"
    using enforce_entries [OF dinv] enforce_order [of ?d] dinv ord
    by (simp add: store_inv_def)
  have vin: "?victim \<in> dom (entries c)" using ne dom by (metis last_in_set)
  then have vk: "?victim \<noteq> k" using new by auto
  have vnot: "?victim \<notin> set (butlast (order c))" using dist ne by (rule last_notin_butlast)
  have others: "\<forall>x. x \<noteq> ?victim \<longrightarrow> x \<noteq> k \<longrightarrow> entries (enforceCapacityLocked_p3 ?d) x = entries c x"
  proof (intro allI impI)
    fix x assume x: "x \<noteq> ?victim" "x \<noteq> k"
    show "entries (enforceCapacityLocked_p3 ?d) x = entries c x"
    proof (cases "x \<in> set (butlast (order c))")
      case True
      then show ?thesis using x by (simp add: ent)
    next
      case False
      then have "x \<notin> set (order c)" using x set_butlast_last [OF ne] by auto
      then have "entries c x = None" using dom by auto
      then show ?thesis using False x by (simp add: ent)
    qed
  qed
  have "entries (enforceCapacityLocked_p3 ?d) ?victim = None" using vk vnot by (simp add: ent)
  moreover have "entries (enforceCapacityLocked_p3 ?d) k \<noteq> None" by (simp add: ent)
  moreover have "Back (order c) = Some ?victim" using ne by (simp add: Back_def)
  moreover have "entries c ?victim \<noteq> None" using vin by auto
  ultimately show ?thesis using set' ord others by simp
qed

text \<open>
  C1: when \<^verbatim>\<open>Set\<close> inserts a new key into a cache that is at full capacity, reached from
  \<^verbatim>\<open>New\<close> by any sequence of operations, the entry evicted is the one at the back of the
  recency order, and that key is the resident key least recently touched: every other
  resident key was touched later, by a \<^verbatim>\<open>Set\<close> that stored it or a \<^verbatim>\<open>Get\<close> that found it. The
  new key goes to the front and the other entries stay as they are. With capacity 2,
  after \<^verbatim>\<open>Set(a,1)\<close>, \<^verbatim>\<open>Set(b,2)\<close>, \<^verbatim>\<open>Get(a)\<close>, \<^verbatim>\<open>Set(c,3)\<close>, at any clock readings, \<^verbatim>\<open>Get(b)\<close>
  reports not-found, \<^verbatim>\<open>Get(a)\<close> returns 1 and \<^verbatim>\<open>Get(c)\<close> returns 3.
\<close>

theorem evicts_least_recently_touched:
  "(New_p3 cap opts = Inr (c0 :: ('k, 'v) Cache_p3) \<longrightarrow> run_p3 c0 ops = Inr c \<longrightarrow>
    entries c k = None \<longrightarrow> 0 \<le> ttl' \<longrightarrow> ListLen (order c) = capacity c \<longrightarrow>
      (\<exists>victim c'. SetWithTTL_p3 c k v ttl' now = Inr c' \<and> Back (order c) = Some victim \<and>
         entries c victim \<noteq> None \<and> order c' = k # butlast (order c) \<and>
         entries c' victim = None \<and> entries c' k \<noteq> None \<and>
         (\<forall>x. x \<noteq> victim \<longrightarrow> x \<noteq> k \<longrightarrow> entries c' x = entries c x) \<and>
         (\<forall>x. entries c x \<noteq> None \<longrightarrow> x \<noteq> victim \<longrightarrow>
              lastTouch_p3 c0 ops victim < lastTouch_p3 c0 ops x))) \<and>
   (case New_p3 2 [] of
      Inl e \<Rightarrow> False
    | Inr s0 \<Rightarrow>
        (case run_p3 s0 [OpSet ''a'' (1::int) t1, OpSet ''b'' 2 t2, OpGet ''a'' t3, OpSet ''c'' 3 t4] of
           Inl p \<Rightarrow> False
         | Inr s \<Rightarrow>
             snd (Get_p3 s ''b'' t5) = None \<and>
             snd (Get_p3 (fst (Get_p3 s ''b'' t5)) ''a'' t6) = Some 1 \<and>
             snd (Get_p3 (fst (Get_p3 (fst (Get_p3 s ''b'' t5)) ''a'' t6)) ''c'' t7) = Some 3))"
proof (intro conjI impI)
  assume n: "New_p3 cap opts = Inr c0" and r: "run_p3 c0 ops = Inr c"
    and new: "entries c k = None" and ttl: "0 \<le> ttl'" and full: "ListLen (order c) = capacity c"
  from New_p3_inv [OF n] New_p3_order [OF n] have i0: "inv_p3 c0" "order c0 = []" by simp_all
  from recency_p3 [OF i0, of ops] r have inv: "inv_p3 c"
    and rec: "recent (lastTouch_p3 c0 ops) (length ops) (order c)" by simp_all
  have dom: "set (order c) = dom (entries c)"
    using inv by (simp add: inv_p3_def bounded_inv_def store_inv_def)
  have least: "\<forall>x. entries c x \<noteq> None \<longrightarrow> x \<noteq> last (order c) \<longrightarrow>
      lastTouch_p3 c0 ops (last (order c)) < lastTouch_p3 c0 ops x"
  proof (intro allI impI)
    fix x assume "entries c x \<noteq> None" "x \<noteq> last (order c)"
    then have "x \<in> set (order c)" using dom by auto
    with rec show "lastTouch_p3 c0 ops (last (order c)) < lastTouch_p3 c0 ops x"
      using \<open>x \<noteq> last (order c)\<close> by (rule recent_last_least)
  qed
  from evict_at_capacity [OF inv new ttl full, of v now] least
  show "\<exists>victim c'. SetWithTTL_p3 c k v ttl' now = Inr c' \<and> Back (order c) = Some victim \<and>
         entries c victim \<noteq> None \<and> order c' = k # butlast (order c) \<and>
         entries c' victim = None \<and> entries c' k \<noteq> None \<and>
         (\<forall>x. x \<noteq> victim \<longrightarrow> x \<noteq> k \<longrightarrow> entries c' x = entries c x) \<and>
         (\<forall>x. entries c x \<noteq> None \<longrightarrow> x \<noteq> victim \<longrightarrow>
              lastTouch_p3 c0 ops victim < lastTouch_p3 c0 ops x)"
    by blast
next
  show "case New_p3 2 [] of
      Inl e \<Rightarrow> False
    | Inr s0 \<Rightarrow>
        (case run_p3 s0 [OpSet ''a'' (1::int) t1, OpSet ''b'' 2 t2, OpGet ''a'' t3, OpSet ''c'' 3 t4] of
           Inl p \<Rightarrow> False
         | Inr s \<Rightarrow>
             snd (Get_p3 s ''b'' t5) = None \<and>
             snd (Get_p3 (fst (Get_p3 s ''b'' t5)) ''a'' t6) = Some 1 \<and>
             snd (Get_p3 (fst (Get_p3 (fst (Get_p3 s ''b'' t5)) ''a'' t6)) ''c'' t7) = Some 3)"
    by (simp add: New_p3_def defaultCleanupInterval_def Set_p3_def SetWithTTL_p3_def Get_p3_def
        isExpired_p3_def enforceCapacityLocked_p3.simps time_defs list_defs)
qed

theorem evicts_least_recently_touched_witness:
  "New_p3 2 [] = Inr (\<lparr>entries = Map.empty, order = [], capacity = 2, stopCh = Open, defaultTTL = 0,
       cleanupInterval = 1000000000, stopOnce = False\<rparr> :: (string, int) Cache_p3) \<and>
   run_p3 (\<lparr>entries = Map.empty, order = [], capacity = 2, stopCh = Open, defaultTTL = 0,
       cleanupInterval = 1000000000, stopOnce = False\<rparr> :: (string, int) Cache_p3)
     [OpSet ''a'' 1 10, OpSet ''b'' 2 20, OpGet ''a'' 30]
     = Inr \<lparr>entries = [''a'' \<mapsto> \<lparr>key = ''a'', val = 1, expiresAt = 0\<rparr>,
                       ''b'' \<mapsto> \<lparr>key = ''b'', val = 2, expiresAt = 0\<rparr>],
            order = [''a'', ''b''], capacity = 2, stopCh = Open, defaultTTL = 0,
            cleanupInterval = 1000000000, stopOnce = False\<rparr> \<and>
   lastTouch_p3 (\<lparr>entries = Map.empty, order = [], capacity = 2, stopCh = Open, defaultTTL = 0,
       cleanupInterval = 1000000000, stopOnce = False\<rparr> :: (string, int) Cache_p3)
     [OpSet ''a'' 1 10, OpSet ''b'' 2 20, OpGet ''a'' 30] ''b''
   < lastTouch_p3 (\<lparr>entries = Map.empty, order = [], capacity = 2, stopCh = Open, defaultTTL = 0,
       cleanupInterval = 1000000000, stopOnce = False\<rparr> :: (string, int) Cache_p3)
     [OpSet ''a'' 1 10, OpSet ''b'' 2 20, OpGet ''a'' 30] ''a'' \<and>
   (\<exists>c'. SetWithTTL_p3 \<lparr>entries = [''a'' \<mapsto> \<lparr>key = ''a'', val = 1::int, expiresAt = 0\<rparr>,
                                   ''b'' \<mapsto> \<lparr>key = ''b'', val = 2, expiresAt = 0\<rparr>],
            order = [''a'', ''b''], capacity = 2, stopCh = Open, defaultTTL = 0,
            cleanupInterval = 1000000000, stopOnce = False\<rparr> ''c'' 3 0 40 = Inr c' \<and>
         order c' = [''c'', ''a''] \<and> entries c' ''b'' = None \<and>
         entries c' ''a'' = Some \<lparr>key = ''a'', val = 1, expiresAt = 0\<rparr>)"
proof -
  let ?init = "\<lparr>entries = Map.empty, order = [], capacity = 2, stopCh = Open, defaultTTL = 0,
       cleanupInterval = 1000000000, stopOnce = False\<rparr> :: (string, int) Cache_p3"
  let ?ops = "[OpSet ''a'' 1 10, OpSet ''b'' 2 20, OpGet ''a'' 30] :: (string, int) op_p3 list"
  let ?s = "\<lparr>entries = [''a'' \<mapsto> \<lparr>key = ''a'', val = 1::int, expiresAt = 0\<rparr>,
                       ''b'' \<mapsto> \<lparr>key = ''b'', val = 2, expiresAt = 0\<rparr>],
            order = [''a'', ''b''], capacity = 2, stopCh = Open, defaultTTL = 0,
            cleanupInterval = 1000000000, stopOnce = False\<rparr>"
  have h1: "New_p3 2 [] = Inr ?init" by (simp add: New_p3_def defaultCleanupInterval_def)
  have h2: "run_p3 ?init ?ops = Inr ?s"
    by (simp add: Set_p3_def SetWithTTL_p3_def Get_p3_def isExpired_p3_def
        enforceCapacityLocked_p3.simps time_defs list_defs)
  have h3: "entries ?s ''c'' = None" by simp
  have h4: "(0::int) \<le> 0" by simp
  have h5: "ListLen (order ?s) = capacity ?s" by (simp add: ListLen_def)
  from evicts_least_recently_touched [THEN conjunct1, rule_format, OF h1 h2 h3 h4 h5, of 3 40]
  obtain victim c' where
    v: "SetWithTTL_p3 ?s ''c'' 3 0 40 = Inr c'" "Back (order ?s) = Some victim"
      "order c' = ''c'' # butlast (order ?s)" "entries c' victim = None"
      "\<forall>x. x \<noteq> victim \<longrightarrow> x \<noteq> ''c'' \<longrightarrow> entries c' x = entries ?s x"
      "\<forall>x. entries ?s x \<noteq> None \<longrightarrow> x \<noteq> victim \<longrightarrow>
           lastTouch_p3 ?init ?ops victim < lastTouch_p3 ?init ?ops x"
    by blast
  from v(2) have b: "victim = ''b''" by (simp add: Back_def)
  from v(6) b have lt: "lastTouch_p3 ?init ?ops ''b'' < lastTouch_p3 ?init ?ops ''a''" by simp
  from v(5) b have a: "entries c' ''a'' = Some \<lparr>key = ''a'', val = 1, expiresAt = 0\<rparr>" by simp
  from v(3) have o: "order c' = [''c'', ''a'']" by simp
  from h1 h2 lt v(1) o v(4) b a show ?thesis by blast
qed

end
